theory Spec2Isabelle
  imports Main "HOL-Library.AList"
begin

section \<open>Data exchanged with the two directories\<close>

text \<open>
  Go errors are opaque values; here an error is its message. A Go \<open>*string\<close> is a
  \<open>string option\<close>, and \<open>awsutils.ToString\<close> reads a nil pointer as the empty string.
\<close>

type_synonym error = string

type_synonym pstring = "string option"

definition ToString :: "pstring \<Rightarrow> string" where
  "ToString p = (case p of None \<Rightarrow> [] | Some s \<Rightarrow> s)"

text \<open>
  The identity store's entities (\<open>types.User\<close>, \<open>types.Group\<close>,
  \<open>types.GroupMembership\<close> of the AWS SDK), with the fields the synchroniser and the
  client read or write.
\<close>

record Name =
  n_FamilyName :: pstring
  n_GivenName :: pstring

record Email =
  e_Primary :: bool
  e_Type :: pstring
  e_Value :: pstring

record ExternalId =
  x_Id :: pstring
  x_Issuer :: pstring

record User =
  u_UserName :: pstring
  u_DisplayName :: pstring
  u_Name :: "Name option"
  u_Emails :: "Email list"
  u_ExternalIds :: "ExternalId list"
  u_UserId :: pstring

record Group =
  g_GroupId :: pstring
  g_DisplayName :: pstring
  g_Description :: pstring

text \<open>
  \<open>types.MemberId\<close> is a union: the member is a user id, or the interface value is nil or
  of a kind the SDK does not know.
\<close>

datatype MemberId = MemberIdMemberUserId string | UnknownUnionMember

record GroupMembership =
  m_IdentityStoreId :: pstring
  m_GroupId :: pstring
  m_MemberId :: MemberId
  m_MembershipId :: pstring

text \<open>
  Modelled from the spec: the source directory's entities (\<open>admin.User\<close>,
  \<open>admin.Group\<close>, \<open>admin.Member\<close> of the Google SDK, declared outside this repository).
  Each source user exposes its primary email, given and family name, suspended flag and
  source-native id; each source group its name, description and email; each source member
  its email.
\<close>

record admin_User =
  PrimaryEmail :: string
  GivenName :: string
  FamilyName :: string
  Suspended :: bool
  Id_of :: string

record admin_Group =
  ag_Name :: string
  ag_Description :: string
  ag_Email :: string

record admin_Member =
  am_Email :: string

text \<open>
  The configuration fields \<open>DoSync\<close> and the synchroniser read (\<open>config.Config\<close>).
\<close>

record Config =
  GoogleCredentials :: string
  GoogleAdmin :: string
  IsLambda :: bool
  UserMatch :: string
  GroupMatch :: string
  IgnoreUsers :: "string list"
  IgnoreGroups :: "string list"

section \<open>The two adapters\<close>

text \<open>
  Every call made through the two client interfaces is recorded, in order, with its
  argument. The first seven are listings, the last six mutate the identity store.
\<close>

datatype call =
    AwsGetUsers
  | GoogleGetDeletedUsers
  | GoogleGetUsers string
  | AwsGetGroups
  | GoogleGetGroups string
  | GoogleGetGroupMembers admin_Group
  | AwsGetGroupMembers Group
  | CreateUser User
  | DeleteUser User
  | CreateGroup pstring pstring
  | DeleteGroup Group
  | AddUserToGroup User Group
  | RemoveGroupMembership GroupMembership

fun isMutation :: "call \<Rightarrow> bool" where
  "isMutation (CreateUser u) = True"
| "isMutation (DeleteUser u) = True"
| "isMutation (CreateGroup n d) = True"
| "isMutation (DeleteGroup g) = True"
| "isMutation (AddUserToGroup u g) = True"
| "isMutation (RemoveGroupMembership m) = True"
| "isMutation c = False"

fun isDeleteUser :: "call \<Rightarrow> bool" where
  "isDeleteUser (DeleteUser u) = True"
| "isDeleteUser c = False"

fun isRemoveGroupMembership :: "call \<Rightarrow> bool" where
  "isRemoveGroupMembership (RemoveGroupMembership m) = True"
| "isRemoveGroupMembership c = False"

fun isAddUserToGroup :: "call \<Rightarrow> bool" where
  "isAddUserToGroup (AddUserToGroup u g) = True"
| "isAddUserToGroup c = False"

text \<open>
  The source snapshot: what the Google client answers to each listing (the client itself
  is outside this repository; a listing either fails or yields the whole sequence).
\<close>

record source =
  src_DeletedUsers :: "error + admin_User list"
  src_Users :: "string \<Rightarrow> error + admin_User list"
  src_Groups :: "string \<Rightarrow> error + admin_Group list"
  src_GroupMembers :: "admin_Group \<Rightarrow> error + admin_Member list"

text \<open>
  The target snapshot: the pages the identity store's paginators deliver, each an error or
  a batch of entities; memberships are listed per group id.
\<close>

record target =
  tgt_UsersPages :: "(error + User list) list"
  tgt_GroupsPages :: "(error + Group list) list"
  tgt_MembershipsPages :: "pstring \<Rightarrow> (error + GroupMembership list) list"

text \<open>
  What the identity store sends to a mutating request. The answer may depend on
  everything requested before (the second deletion of a user need not be answered like
  the first), so each takes the calls made so far.
\<close>

record CreateUserInput =
  cui_IdentityStoreId :: pstring
  cui_DisplayName :: pstring
  cui_UserName :: pstring
  cui_Name :: "Name option"
  cui_Emails :: "Email list"

record store =
  api_CreateUser :: "call list \<Rightarrow> CreateUserInput \<Rightarrow> error + pstring"
  api_DeleteUser :: "call list \<Rightarrow> pstring \<Rightarrow> pstring \<Rightarrow> error option"
  api_CreateGroup :: "call list \<Rightarrow> pstring \<Rightarrow> pstring \<Rightarrow> pstring \<Rightarrow> error + pstring"
  api_DeleteGroup :: "call list \<Rightarrow> pstring \<Rightarrow> pstring \<Rightarrow> error option"
  api_CreateGroupMembership :: "call list \<Rightarrow> pstring \<Rightarrow> pstring \<Rightarrow> MemberId \<Rightarrow> error + pstring"
  api_DeleteGroupMembership :: "call list \<Rightarrow> pstring \<Rightarrow> pstring \<Rightarrow> error option"

text \<open>
  Everything outside the synchroniser: the two snapshots, the store's answers, the store
  id the client was built with, the file system and Google client construction of
  \<open>DoSync\<close>, and the order in which the Go runtime walks a map. Go leaves that order
  unspecified, and it may differ from one \<open>range\<close> to the next: \<open>mapOrder\<close> receives the
  calls made so far and the keys and returns the keys in the order visited.
\<close>

record world =
  w_source :: source
  w_target :: target
  w_store :: store
  identityStoreId :: pstring
  ReadFile :: "string \<Rightarrow> error + string"
  google_NewClient :: "string \<Rightarrow> string \<Rightarrow> error option"
  mapOrder :: "call list \<Rightarrow> string list \<Rightarrow> string list"

text \<open>
  \<open>for _, v := range m\<close> over a Go map held as an association list: the values of the
  keys, in the order the runtime chose.
\<close>

definition range_values :: "(string list \<Rightarrow> string list) \<Rightarrow> (string \<times> 'v) list \<Rightarrow> 'v list" where
  "range_values ord al = List.map_filter (map_of al) (ord (map fst al))"

subsection \<open>The identity store client\<close>

text \<open>
  The paginator loop of \<open>GetUsers\<close>, \<open>GetGroups\<close> and \<open>GetGroupMembers\<close>: pages are
  appended until one fails; the failure is returned with what was read so far.
\<close>

fun drain :: "(error + 'a list) list \<Rightarrow> 'a list \<Rightarrow> 'a list \<times> error option" where
  "drain [] res = (res, None)"
| "drain (Inl err # pages) res = (res, Some err)"
| "drain (Inr out # pages) res = drain pages (res @ out)"

definition aws_GetUsers :: "world \<Rightarrow> call list \<Rightarrow> (User list \<times> error option) \<times> call list" where
  "aws_GetUsers w h = (drain (tgt_UsersPages (w_target w)) [], h @ [AwsGetUsers])"

definition aws_GetGroups :: "world \<Rightarrow> call list \<Rightarrow> (Group list \<times> error option) \<times> call list" where
  "aws_GetGroups w h = (drain (tgt_GroupsPages (w_target w)) [], h @ [AwsGetGroups])"

definition aws_GetGroupMembers ::
  "world \<Rightarrow> Group \<Rightarrow> call list \<Rightarrow> (GroupMembership list \<times> error option) \<times> call list" where
  "aws_GetGroupMembers w g h =
     (drain (tgt_MembershipsPages (w_target w) (g_GroupId g)) [], h @ [AwsGetGroupMembers g])"

definition aws_CreateUser :: "world \<Rightarrow> User \<Rightarrow> call list \<Rightarrow> (error + User) \<times> call list" where
  "aws_CreateUser w u h =
     (case api_CreateUser (w_store w) h
             \<lparr>cui_IdentityStoreId = identityStoreId w,
              cui_DisplayName = u_DisplayName u,
              cui_UserName = u_UserName u,
              cui_Name = u_Name u,
              cui_Emails = u_Emails u\<rparr> of
        Inl err \<Rightarrow> (Inl err, h @ [CreateUser u])
      | Inr uid \<Rightarrow> (Inr (u\<lparr>u_UserId := uid\<rparr>), h @ [CreateUser u]))"

definition aws_DeleteUser :: "world \<Rightarrow> User \<Rightarrow> call list \<Rightarrow> error option \<times> call list" where
  "aws_DeleteUser w u h =
     (api_DeleteUser (w_store w) h (identityStoreId w) (u_UserId u), h @ [DeleteUser u])"

definition aws_DeleteGroup :: "world \<Rightarrow> Group \<Rightarrow> call list \<Rightarrow> error option \<times> call list" where
  "aws_DeleteGroup w g h =
     (api_DeleteGroup (w_store w) h (g_GroupId g) (identityStoreId w), h @ [DeleteGroup g])"

definition aws_CreateGroup ::
  "world \<Rightarrow> pstring \<Rightarrow> pstring \<Rightarrow> call list \<Rightarrow> (error + Group) \<times> call list" where
  "aws_CreateGroup w name description h =
     (case api_CreateGroup (w_store w) h (identityStoreId w) name description of
        Inl err \<Rightarrow> (Inl err, h @ [CreateGroup name description])
      | Inr gid \<Rightarrow>
          (Inr \<lparr>g_GroupId = gid, g_DisplayName = name, g_Description = description\<rparr>,
           h @ [CreateGroup name description]))"

definition aws_AddUserToGroup ::
  "world \<Rightarrow> User \<Rightarrow> Group \<Rightarrow> call list \<Rightarrow> (error + GroupMembership) \<times> call list" where
  "aws_AddUserToGroup w u g h =
     (let memberId = MemberIdMemberUserId (ToString (u_UserId u)) in
      case api_CreateGroupMembership (w_store w) h (g_GroupId g) (identityStoreId w) memberId of
        Inl err \<Rightarrow> (Inl err, h @ [AddUserToGroup u g])
      | Inr mid \<Rightarrow>
          (Inr \<lparr>m_IdentityStoreId = identityStoreId w, m_GroupId = g_GroupId g,
                m_MemberId = memberId, m_MembershipId = mid\<rparr>,
           h @ [AddUserToGroup u g]))"

definition aws_RemoveGroupMembership ::
  "world \<Rightarrow> GroupMembership \<Rightarrow> call list \<Rightarrow> error option \<times> call list" where
  "aws_RemoveGroupMembership w membership h =
     (api_DeleteGroupMembership (w_store w) h (identityStoreId w) (m_MembershipId membership),
      h @ [RemoveGroupMembership membership])"

subsection \<open>The Google client\<close>

definition google_GetDeletedUsers ::
  "world \<Rightarrow> call list \<Rightarrow> (error + admin_User list) \<times> call list" where
  "google_GetDeletedUsers w h = (src_DeletedUsers (w_source w), h @ [GoogleGetDeletedUsers])"

definition google_GetUsers ::
  "world \<Rightarrow> string \<Rightarrow> call list \<Rightarrow> (error + admin_User list) \<times> call list" where
  "google_GetUsers w query h = (src_Users (w_source w) query, h @ [GoogleGetUsers query])"

definition google_GetGroups ::
  "world \<Rightarrow> string \<Rightarrow> call list \<Rightarrow> (error + admin_Group list) \<times> call list" where
  "google_GetGroups w query h = (src_Groups (w_source w) query, h @ [GoogleGetGroups query])"

definition google_GetGroupMembers ::
  "world \<Rightarrow> admin_Group \<Rightarrow> call list \<Rightarrow> (error + admin_Member list) \<times> call list" where
  "google_GetGroupMembers w g h = (src_GroupMembers (w_source w) g, h @ [GoogleGetGroupMembers g])"

section \<open>The synchroniser\<close>

text \<open>
  A function that returns a Go \<open>error\<close> ends in \<open>Done\<close> (nil), in \<open>Failed\<close> with the
  error, or in a runtime panic.
\<close>

datatype outcome = Done | Failed error | Panicked

record UserSyncResult =
  index :: "string \<rightharpoonup> User"
  toDelete :: "User list"
  indexByUserId :: "string \<rightharpoonup> User"

subsection \<open>Ignore lists\<close>

fun ignoreLoop :: "string list \<Rightarrow> string \<Rightarrow> bool" where
  "ignoreLoop [] name = False"
| "ignoreLoop (u # us) name = (if u = name then True else ignoreLoop us name)"

definition ignoreUser :: "Config \<Rightarrow> string \<Rightarrow> bool" where
  "ignoreUser cfg name = ignoreLoop (IgnoreUsers cfg) name"

definition ignoreGroup :: "Config \<Rightarrow> string \<Rightarrow> bool" where
  "ignoreGroup cfg name = ignoreLoop (IgnoreGroups cfg) name"

subsection \<open>SyncUsers\<close>

text \<open>The three loops of \<open>SyncUsers\<close>, one body each.\<close>

definition indexUser :: "UserSyncResult \<Rightarrow> User \<Rightarrow> UserSyncResult" where
  "indexUser usr u =
     usr\<lparr>index := (index usr)(ToString (u_UserName u) \<mapsto> u),
         indexByUserId := (indexByUserId usr)(ToString (u_UserId u) \<mapsto> u)\<rparr>"

definition markDeleted :: "UserSyncResult \<Rightarrow> admin_User \<Rightarrow> UserSyncResult" where
  "markDeleted usr u =
     (case index usr (PrimaryEmail u) of
        None \<Rightarrow> usr
      | Some userInAWS \<Rightarrow> usr\<lparr>toDelete := toDelete usr @ [userInAWS]\<rparr>)"

definition newUser :: "admin_User \<Rightarrow> User" where
  "newUser u =
     \<lparr>u_UserName = Some (PrimaryEmail u),
      u_DisplayName = Some (GivenName u @ '' '' @ FamilyName u),
      u_Name = Some \<lparr>n_FamilyName = Some (FamilyName u), n_GivenName = Some (GivenName u)\<rparr>,
      u_Emails = [\<lparr>e_Primary = True, e_Type = Some ''work'', e_Value = Some (PrimaryEmail u)\<rparr>],
      u_ExternalIds = [\<lparr>x_Id = Some (Id_of u), x_Issuer = Some ''Google''\<rparr>],
      u_UserId = None\<rparr>"

definition syncUser ::
  "Config \<Rightarrow> world \<Rightarrow> UserSyncResult \<times> call list \<Rightarrow> admin_User \<Rightarrow> UserSyncResult \<times> call list" where
  "syncUser cfg w st u =
     (let (usr, h) = st in
      if ignoreUser cfg (PrimaryEmail u) then (usr, h)
      else case index usr (PrimaryEmail u) of
        Some userInAWS \<Rightarrow>
          if Suspended u then (usr\<lparr>toDelete := toDelete usr @ [userInAWS]\<rparr>, h)
          else (usr, h)
      | None \<Rightarrow>
          if Suspended u then (usr, h)
          else (case aws_CreateUser w (newUser u) h of
                  (Inl err, h') \<Rightarrow> (usr, h')
                | (Inr added, h') \<Rightarrow>
                    (usr\<lparr>index := (index usr)(PrimaryEmail u \<mapsto> added),
                         indexByUserId := (indexByUserId usr)(ToString (u_UserId added) \<mapsto> added)\<rparr>,
                     h')))"

definition emptyResult :: UserSyncResult where
  "emptyResult = \<lparr>index = Map.empty, toDelete = [], indexByUserId = Map.empty\<rparr>"

definition SyncUsers ::
  "Config \<Rightarrow> world \<Rightarrow> string \<Rightarrow> call list \<Rightarrow> (UserSyncResult \<times> error option) \<times> call list" where
  "SyncUsers cfg w query h =
     (case aws_GetUsers w h of
        ((awsUsers, Some err), h1) \<Rightarrow> ((emptyResult, Some err), h1)
      | ((awsUsers, None), h1) \<Rightarrow>
          let usr1 = foldl indexUser emptyResult awsUsers in
          (case google_GetDeletedUsers w h1 of
             (Inl err, h2) \<Rightarrow> ((usr1, Some err), h2)
           | (Inr gcpDeletedUsers, h2) \<Rightarrow>
               let usr2 = foldl markDeleted usr1 gcpDeletedUsers in
               (case google_GetUsers w query h2 of
                  (Inl err, h3) \<Rightarrow> ((usr2, Some err), h3)
                | (Inr googleUsers, h3) \<Rightarrow>
                    (let (usr3, h4) = foldl (syncUser cfg w) (usr2, h3) googleUsers
                     in ((usr3, None), h4)))))"

subsection \<open>SyncMembershipsForGroup\<close>

definition addMember ::
  "UserSyncResult \<Rightarrow> (string \<times> User) list \<Rightarrow> admin_Member \<Rightarrow> (string \<times> User) list" where
  "addMember usr memberList m =
     (case index usr (am_Email m) of
        Some val \<Rightarrow> AList.update (am_Email m) val memberList
      | None \<Rightarrow> memberList)"

text \<open>
  The loop over the target memberships. A member id that is not a user id leaves
  \<open>userId\<close> nil after the checked type assertion, and the read of \<open>userId.Value\<close> that
  follows panics: the loop then has no result.
\<close>

fun diffMembers ::
  "UserSyncResult \<Rightarrow> GroupMembership list \<Rightarrow> GroupMembership list \<times> (string \<times> User) list \<Rightarrow>
   (GroupMembership list \<times> (string \<times> User) list) option" where
  "diffMembers usr [] st = Some st"
| "diffMembers usr (m # ms) (toDel, memberList) =
     (case m_MemberId m of
        MemberIdMemberUserId v \<Rightarrow>
          (case indexByUserId usr v of
             None \<Rightarrow> diffMembers usr ms (toDel @ [m], memberList)
           | Some user \<Rightarrow>
               diffMembers usr ms
                 (if map_of memberList (ToString (u_UserName user)) = None then toDel @ [m] else toDel,
                  AList.delete (ToString (u_UserName user)) memberList))
      | UnknownUnionMember \<Rightarrow> None)"

fun removeMemberships :: "world \<Rightarrow> GroupMembership list \<Rightarrow> call list \<Rightarrow> outcome \<times> call list" where
  "removeMemberships w [] h = (Done, h)"
| "removeMemberships w (val # rest) h =
     (case aws_RemoveGroupMembership w val h of
        (Some err, h') \<Rightarrow> (Failed err, h')
      | (None, h') \<Rightarrow> removeMemberships w rest h')"

fun addMembers :: "world \<Rightarrow> Group \<Rightarrow> User list \<Rightarrow> call list \<Rightarrow> outcome \<times> call list" where
  "addMembers w awsGroup [] h = (Done, h)"
| "addMembers w awsGroup (element # rest) h =
     (case aws_AddUserToGroup w element awsGroup h of
        (Inl err, h') \<Rightarrow> (Failed err, h')
      | (Inr res, h') \<Rightarrow> addMembers w awsGroup rest h')"

text \<open>
  The first statement reads \<open>googleGroup.Name\<close> for the logger, so a nil source group
  panics before anything is fetched.
\<close>

definition SyncMembershipsForGroup ::
  "world \<Rightarrow> admin_Group option \<Rightarrow> Group \<Rightarrow> UserSyncResult \<Rightarrow> call list \<Rightarrow> outcome \<times> call list" where
  "SyncMembershipsForGroup w googleGroup awsGroup usr h =
     (case googleGroup of
        None \<Rightarrow> (Panicked, h)
      | Some gg \<Rightarrow>
          (case google_GetGroupMembers w gg h of
             (Inl err, h1) \<Rightarrow> (Failed err, h1)
           | (Inr groupMembers, h1) \<Rightarrow>
               let memberList = foldl (addMember usr) [] groupMembers in
               (case aws_GetGroupMembers w awsGroup h1 of
                  ((awsMembers, Some err), h2) \<Rightarrow> (Failed err, h2)
                | ((awsMembers, None), h2) \<Rightarrow>
                    (case diffMembers usr awsMembers ([], memberList) of
                       None \<Rightarrow> (Panicked, h2)
                     | Some (toDel, memberList') \<Rightarrow>
                         (case removeMemberships w toDel h2 of
                            (Done, h3) \<Rightarrow>
                              addMembers w awsGroup (range_values (mapOrder w h3) memberList') h3
                          | (r, h3) \<Rightarrow> (r, h3))))))"

subsection \<open>SyncGroups\<close>

definition indexGroup :: "(string \<times> Group) list \<Rightarrow> Group \<Rightarrow> (string \<times> Group) list" where
  "indexGroup groupsIndex u = AList.update (ToString (g_DisplayName u)) u groupsIndex"

text \<open>
  The loop over the source groups carries the source-group index, the working group index
  and the calls made.
\<close>

type_synonym groups_state = "(string \<rightharpoonup> admin_Group) \<times> (string \<times> Group) list \<times> call list"

definition syncGroup :: "Config \<Rightarrow> world \<Rightarrow> groups_state \<Rightarrow> admin_Group \<Rightarrow> groups_state" where
  "syncGroup cfg w st g =
     (let (googleGroupsIndex, groupsIndex, h) = st in
      if ignoreGroup cfg (ag_Email g) then (googleGroupsIndex, groupsIndex, h)
      else
        let googleGroupsIndex' = googleGroupsIndex(ag_Name g \<mapsto> g) in
        case map_of groupsIndex (ag_Name g) of
          Some existing \<Rightarrow> (googleGroupsIndex', groupsIndex, h)
        | None \<Rightarrow>
            (case aws_CreateGroup w (Some (ag_Name g)) (Some (ag_Description g)) h of
               (Inl err, h') \<Rightarrow> (googleGroupsIndex', groupsIndex, h')
             | (Inr gg, h') \<Rightarrow>
                 (googleGroupsIndex', AList.update (ToString (g_DisplayName gg)) gg groupsIndex, h')))"

definition markGroup ::
  "(string \<rightharpoonup> admin_Group) \<Rightarrow> Group list \<times> (string \<times> Group) list \<Rightarrow> Group \<Rightarrow>
   Group list \<times> (string \<times> Group) list" where
  "markGroup googleGroupsIndex st g =
     (let (groupsToDelete, groupsIndex) = st in
      case googleGroupsIndex (ToString (g_DisplayName g)) of
        None \<Rightarrow> (groupsToDelete @ [g], AList.delete (ToString (g_DisplayName g)) groupsIndex)
      | Some sg \<Rightarrow> (groupsToDelete, groupsIndex))"

fun syncMemberships ::
  "world \<Rightarrow> (string \<rightharpoonup> admin_Group) \<Rightarrow> UserSyncResult \<Rightarrow> Group list \<Rightarrow> call list \<Rightarrow>
   outcome \<times> call list" where
  "syncMemberships w googleGroupsIndex usr [] h = (Done, h)"
| "syncMemberships w googleGroupsIndex usr (g # rest) h =
     (case SyncMembershipsForGroup w (googleGroupsIndex (ToString (g_DisplayName g))) g usr h of
        (Done, h') \<Rightarrow> syncMemberships w googleGroupsIndex usr rest h'
      | (r, h') \<Rightarrow> (r, h'))"

fun deleteGroups :: "world \<Rightarrow> Group list \<Rightarrow> call list \<Rightarrow> outcome \<times> call list" where
  "deleteGroups w [] h = (Done, h)"
| "deleteGroups w (g # rest) h =
     (case aws_DeleteGroup w g h of
        (Some err, h') \<Rightarrow> (Failed err, h')
      | (None, h') \<Rightarrow> deleteGroups w rest h')"

text \<open>
  \<open>SyncGroups\<close> up to the end of its third loop: the source-group index, the groups to
  delete, the working group index, and the calls made; or the listing error.
\<close>

definition planGroups ::
  "Config \<Rightarrow> world \<Rightarrow> string \<Rightarrow> call list \<Rightarrow>
   (error + (string \<rightharpoonup> admin_Group) \<times> Group list \<times> (string \<times> Group) list) \<times> call list" where
  "planGroups cfg w query h =
     (case aws_GetGroups w h of
        ((awsGroups, Some err), h1) \<Rightarrow> (Inl err, h1)
      | ((awsGroups, None), h1) \<Rightarrow>
          let groupsIndex = foldl indexGroup [] awsGroups in
          (case google_GetGroups w query h1 of
             (Inl err, h2) \<Rightarrow> (Inl err, h2)
           | (Inr googleGroups, h2) \<Rightarrow>
               (let (googleGroupsIndex, groupsIndex', h3) =
                      foldl (syncGroup cfg w) (Map.empty, groupsIndex, h2) googleGroups;
                    (groupsToDelete, groupsIndex'') =
                      foldl (markGroup googleGroupsIndex) ([], groupsIndex') awsGroups
                in (Inr (googleGroupsIndex, groupsToDelete, groupsIndex''), h3))))"

definition SyncGroups ::
  "Config \<Rightarrow> world \<Rightarrow> string \<Rightarrow> UserSyncResult \<Rightarrow> call list \<Rightarrow> outcome \<times> call list" where
  "SyncGroups cfg w query usr h =
     (case planGroups cfg w query h of
        (Inl err, h3) \<Rightarrow> (Failed err, h3)
      | (Inr (googleGroupsIndex, groupsToDelete, groupsIndex), h3) \<Rightarrow>
          (case syncMemberships w googleGroupsIndex usr
                  (range_values (mapOrder w h3) groupsIndex) h3 of
             (Done, h4) \<Rightarrow> deleteGroups w groupsToDelete h4
           | (r, h4) \<Rightarrow> (r, h4)))"

subsection \<open>RemoveUsers and DoSync\<close>

fun RemoveUsers :: "world \<Rightarrow> User list \<Rightarrow> call list \<Rightarrow> outcome \<times> call list" where
  "RemoveUsers w [] h = (Done, h)"
| "RemoveUsers w (u # rest) h =
     (case aws_DeleteUser w u h of
        (Some err, h') \<Rightarrow> (Failed err, h')
      | (None, h') \<Rightarrow> RemoveUsers w rest h')"

text \<open>
  \<open>DoSync\<close> takes the calls of earlier runs, so that the store's answers in one run may
  depend on what the runs before it requested.
\<close>

definition DoSync :: "Config \<Rightarrow> world \<Rightarrow> call list \<Rightarrow> outcome \<times> call list" where
  "DoSync cfg w h =
     (case (if \<not> IsLambda cfg then ReadFile w (GoogleCredentials cfg)
            else Inr (GoogleCredentials cfg)) of
        Inl err \<Rightarrow> (Failed err, h)
      | Inr creds \<Rightarrow>
          (case google_NewClient w (GoogleAdmin cfg) creds of
             Some err \<Rightarrow> (Failed err, h)
           | None \<Rightarrow>
               (case SyncUsers cfg w (UserMatch cfg) h of
                  ((syncResult, Some err), h1) \<Rightarrow> (Failed err, h1)
                | ((syncResult, None), h1) \<Rightarrow>
                    (case SyncGroups cfg w (GroupMatch cfg) syncResult h1 of
                       (Done, h2) \<Rightarrow> RemoveUsers w (toDelete syncResult) h2
                     | (r, h2) \<Rightarrow> (r, h2)))))"

section \<open>Names used to state the properties\<close>

text \<open>
  The names under which the loop over the source groups files a group in its source-group
  index: the display names of the source groups whose email is not on the ignore list.
\<close>

definition sourceIndexNames :: "Config \<Rightarrow> admin_Group list \<Rightarrow> string list" where
  "sourceIndexNames cfg gs = map ag_Name (filter (\<lambda>g. \<not> ignoreGroup cfg (ag_Email g)) gs)"

text \<open>
  The deletion rule as the specification words it: a target group is marked when its
  display name has no entry among the display names of all source groups, ignored or not.
\<close>

definition specMarkedForDeletion :: "admin_Group list \<Rightarrow> Group \<Rightarrow> bool" where
  "specMarkedForDeletion googleGroups g \<longleftrightarrow>
     ToString (g_DisplayName g) \<notin> set (map ag_Name googleGroups)"

text \<open>The sequences a successful source listing delivers (empty when the listing fails).\<close>

definition sourceUsers :: "world \<Rightarrow> string \<Rightarrow> admin_User list" where
  "sourceUsers w query = (case src_Users (w_source w) query of Inl err \<Rightarrow> [] | Inr us \<Rightarrow> us)"

definition sourceDeletedUsers :: "world \<Rightarrow> admin_User list" where
  "sourceDeletedUsers w = (case src_DeletedUsers (w_source w) of Inl err \<Rightarrow> [] | Inr us \<Rightarrow> us)"

definition sourceGroups :: "world \<Rightarrow> string \<Rightarrow> admin_Group list" where
  "sourceGroups w query = (case src_Groups (w_source w) query of Inl err \<Rightarrow> [] | Inr gs \<Rightarrow> gs)"

text \<open>
  The calls user reconciliation can make, and the calls group reconciliation can make,
  given the source listing each works from.
\<close>

fun userCall :: "Config \<Rightarrow> admin_User list \<Rightarrow> call \<Rightarrow> bool" where
  "userCall cfg us AwsGetUsers = True"
| "userCall cfg us GoogleGetDeletedUsers = True"
| "userCall cfg us (GoogleGetUsers q) = True"
| "userCall cfg us (CreateUser x) =
     (\<exists>u \<in> set us. x = newUser u \<and> \<not> ignoreUser cfg (PrimaryEmail u) \<and> \<not> Suspended u)"
| "userCall cfg us c = False"

fun groupCall :: "Config \<Rightarrow> admin_Group list \<Rightarrow> call \<Rightarrow> bool" where
  "groupCall cfg gs AwsGetGroups = True"
| "groupCall cfg gs (GoogleGetGroups q) = True"
| "groupCall cfg gs (GoogleGetGroupMembers g) = True"
| "groupCall cfg gs (AwsGetGroupMembers g) = True"
| "groupCall cfg gs (RemoveGroupMembership m) = True"
| "groupCall cfg gs (AddUserToGroup u g) = True"
| "groupCall cfg gs (DeleteGroup g) = True"
| "groupCall cfg gs (CreateGroup n d) =
     (\<exists>g \<in> set gs. \<not> ignoreGroup cfg (ag_Email g) \<and> n = Some (ag_Name g) \<and>
                    d = Some (ag_Description g))"
| "groupCall cfg gs c = False"

text \<open>Every user is filed in the username index under its own username.\<close>

definition keyed :: "UserSyncResult \<Rightarrow> bool" where
  "keyed usr \<longleftrightarrow> (\<forall>k t. index usr k = Some t \<longrightarrow> ToString (u_UserName t) = k)"

text \<open>
  The two snapshots and the user index leave membership reconciliation of a group nothing
  to do: the source group is there, both member listings succeed, and the comparison
  finds no membership to remove and no user to add.
\<close>

definition nothingToDo ::
  "source \<Rightarrow> target \<Rightarrow> UserSyncResult \<Rightarrow> admin_Group option \<Rightarrow> Group \<Rightarrow> bool" where
  "nothingToDo src tgt usr sg g =
     (case sg of
        None \<Rightarrow> False
      | Some gg \<Rightarrow>
          (case src_GroupMembers src gg of
             Inl err \<Rightarrow> False
           | Inr ms \<Rightarrow>
               (case drain (tgt_MembershipsPages tgt (g_GroupId g)) [] of
                  (members, Some err) \<Rightarrow> False
                | (members, None) \<Rightarrow>
                    diffMembers usr members ([], foldl (addMember usr) [] ms) = Some ([], []))))"

text \<open>
  The target lists a membership of the group that resolves, through the index by user id,
  to a user with the given username.
\<close>

definition listedUnder :: "world \<Rightarrow> UserSyncResult \<Rightarrow> Group \<Rightarrow> string \<Rightarrow> bool" where
  "listedUnder w usr g k \<longleftrightarrow>
     (\<exists>m \<in> set (fst (drain (tgt_MembershipsPages (w_target w) (g_GroupId g)) [])).
        case m_MemberId m of
          MemberIdMemberUserId v \<Rightarrow>
            (case indexByUserId usr v of
               None \<Rightarrow> False
             | Some user \<Rightarrow> ToString (u_UserName user) = k)
        | UnknownUnionMember \<Rightarrow> False)"

section \<open>Concrete directories\<close>

text \<open>
  Small worlds on which the definitions are evaluated: a store that accepts every
  request, one that rejects user creation, a map order that keeps the keys as stored, the
  users \<open>a@x.com\<close> and \<open>b@x.com\<close>, and one group \<open>Eng\<close> on both sides.
\<close>

definition okStore :: store where
  "okStore =
     \<lparr>api_CreateUser = (\<lambda>h i. Inr (Some ''new-user'')),
      api_DeleteUser = (\<lambda>h s u. None),
      api_CreateGroup = (\<lambda>h s n d. Inr (Some ''new-group'')),
      api_DeleteGroup = (\<lambda>h g s. None),
      api_CreateGroupMembership = (\<lambda>h g s m. Inr (Some ''new-membership'')),
      api_DeleteGroupMembership = (\<lambda>h s m. None)\<rparr>"

definition rejectingStore :: store where
  "rejectingStore = okStore\<lparr>api_CreateUser := (\<lambda>h i. Inl ''ValidationException'')\<rparr>"

definition mkWorld :: "source \<Rightarrow> target \<Rightarrow> store \<Rightarrow> world" where
  "mkWorld s t st =
     \<lparr>w_source = s, w_target = t, w_store = st, identityStoreId = Some ''d-1'',
      ReadFile = (\<lambda>p. Inr ''{}''), google_NewClient = (\<lambda>a c. None),
      mapOrder = (\<lambda>h ks. ks)\<rparr>"

definition cfg0 :: Config where
  "cfg0 = \<lparr>GoogleCredentials = ''{}'', GoogleAdmin = ''admin@x.com'', IsLambda = True,
            UserMatch = [], GroupMatch = [], IgnoreUsers = [], IgnoreGroups = []\<rparr>"

definition cfgIgnoreEng :: Config where
  "cfgIgnoreEng = cfg0\<lparr>IgnoreGroups := [''eng@x.com'']\<rparr>"

definition cfgIgnoreName :: Config where
  "cfgIgnoreName = cfg0\<lparr>IgnoreGroups := [''Eng'', ''ENG@x.com'']\<rparr>"

definition cfgIgnoreAlice :: Config where
  "cfgIgnoreAlice = cfg0\<lparr>IgnoreUsers := [''a@x.com''], IgnoreGroups := [''eng@x.com'']\<rparr>"

definition mkUser :: "string \<Rightarrow> string \<Rightarrow> User" where
  "mkUser name uid =
     \<lparr>u_UserName = Some name, u_DisplayName = None, u_Name = None, u_Emails = [],
      u_ExternalIds = [], u_UserId = Some uid\<rparr>"

definition alice :: User where
  "alice = mkUser ''a@x.com'' ''u-1''"

definition bob :: User where
  "bob = mkUser ''b@x.com'' ''u-2''"

definition aliceSource :: "bool \<Rightarrow> admin_User" where
  "aliceSource suspended =
     \<lparr>PrimaryEmail = ''a@x.com'', GivenName = ''Alice'', FamilyName = ''Ames'',
      Suspended = suspended, Id_of = ''100''\<rparr>"

definition bobSource :: "bool \<Rightarrow> admin_User" where
  "bobSource suspended =
     \<lparr>PrimaryEmail = ''b@x.com'', GivenName = ''Bob'', FamilyName = ''Bell'',
      Suspended = suspended, Id_of = ''200''\<rparr>"

definition engSource :: admin_Group where
  "engSource = \<lparr>ag_Name = ''Eng'', ag_Description = ''Engineering'', ag_Email = ''eng@x.com''\<rparr>"

definition engTarget :: Group where
  "engTarget = \<lparr>g_GroupId = Some ''g-1'', g_DisplayName = Some ''Eng'', g_Description = None\<rparr>"

definition staleMembership :: GroupMembership where
  "staleMembership =
     \<lparr>m_IdentityStoreId = Some ''d-1'', m_GroupId = Some ''g-1'',
      m_MemberId = MemberIdMemberUserId ''u-9'', m_MembershipId = Some ''m-1''\<rparr>"

definition oddMembership :: GroupMembership where
  "oddMembership =
     \<lparr>m_IdentityStoreId = Some ''d-1'', m_GroupId = Some ''g-1'',
      m_MemberId = UnknownUnionMember, m_MembershipId = Some ''m-2''\<rparr>"

definition bobMembership :: GroupMembership where
  "bobMembership =
     \<lparr>m_IdentityStoreId = Some ''d-1'', m_GroupId = Some ''g-1'',
      m_MemberId = MemberIdMemberUserId ''u-2'', m_MembershipId = Some ''m-3''\<rparr>"

text \<open>
  Source group \<open>Eng\<close> with the one member \<open>b@x.com\<close>, who is a target user; target
  group \<open>Eng\<close> with the given memberships.
\<close>

definition membersWorld :: "GroupMembership list \<Rightarrow> world" where
  "membersWorld ms =
     mkWorld
       \<lparr>src_DeletedUsers = Inr [], src_Users = (\<lambda>q. Inr []),
        src_Groups = (\<lambda>q. Inr [engSource]),
        src_GroupMembers = (\<lambda>g. Inr [\<lparr>am_Email = ''b@x.com''\<rparr>])\<rparr>
       \<lparr>tgt_UsersPages = [Inr [mkUser ''b@x.com'' ''u-2'']],
        tgt_GroupsPages = [Inr [engTarget]],
        tgt_MembershipsPages = (\<lambda>g. [Inr ms])\<rparr>
       okStore"

definition bobIndexed :: UserSyncResult where
  "bobIndexed = indexUser emptyResult (mkUser ''b@x.com'' ''u-2'')"

text \<open>
  A world given by its tombstones, active source users, source groups, target users and
  target groups; every source group has the one member \<open>b@x.com\<close>, and no target group
  has a membership.
\<close>

definition directoryWorld ::
  "admin_User list \<Rightarrow> admin_User list \<Rightarrow> admin_Group list \<Rightarrow> User list \<Rightarrow> Group list \<Rightarrow>
   store \<Rightarrow> world" where
  "directoryWorld deleted active groups targetUsers targetGroups st =
     mkWorld
       \<lparr>src_DeletedUsers = Inr deleted, src_Users = (\<lambda>q. Inr active),
        src_Groups = (\<lambda>q. Inr groups),
        src_GroupMembers = (\<lambda>g. Inr [\<lparr>am_Email = ''b@x.com''\<rparr>])\<rparr>
       \<lparr>tgt_UsersPages = [Inr targetUsers],
        tgt_GroupsPages = [Inr targetGroups],
        tgt_MembershipsPages = (\<lambda>g. [Inr []])\<rparr>
       st"

text \<open>
  The same snapshots with another store and another map order: user creation is rejected
  and maps are walked back to front.
\<close>

definition otherRuntime :: "world \<Rightarrow> world" where
  "otherRuntime w = w\<lparr>w_store := rejectingStore, mapOrder := (\<lambda>h ks. rev ks)\<rparr>"

section \<open>Evaluation\<close>

lemmas adapter_defs = aws_GetUsers_def aws_GetGroups_def aws_GetGroupMembers_def
  aws_CreateUser_def aws_DeleteUser_def aws_DeleteGroup_def aws_CreateGroup_def
  aws_AddUserToGroup_def aws_RemoveGroupMembership_def google_GetDeletedUsers_def
  google_GetUsers_def google_GetGroups_def google_GetGroupMembers_def

lemmas sync_defs = DoSync_def SyncUsers_def SyncGroups_def planGroups_def syncGroup_def
  markGroup_def indexGroup_def markDeleted_def syncUser_def SyncMembershipsForGroup_def
  indexUser_def emptyResult_def addMember_def range_values_def List.map_filter_def ToString_def
  ignoreGroup_def ignoreUser_def newUser_def

lemmas world_defs = okStore_def rejectingStore_def mkWorld_def cfg0_def cfgIgnoreEng_def
  cfgIgnoreName_def cfgIgnoreAlice_def mkUser_def alice_def bob_def aliceSource_def
  bobSource_def engSource_def engTarget_def staleMembership_def oddMembership_def
  membersWorld_def bobIndexed_def directoryWorld_def bobMembership_def

section \<open>Auxiliary facts\<close>

lemma ignoreLoop_iff: "ignoreLoop xs name \<longleftrightarrow> name \<in> set xs"
  by (induction xs) auto

lemma ignoreUser_iff: "ignoreUser cfg name \<longleftrightarrow> name \<in> set (IgnoreUsers cfg)"
  by (simp add: ignoreUser_def ignoreLoop_iff)

lemma ignoreGroup_iff: "ignoreGroup cfg name \<longleftrightarrow> name \<in> set (IgnoreGroups cfg)"
  by (simp add: ignoreGroup_def ignoreLoop_iff)

lemma set_range_values:
  "set (range_values ord al) = {v. \<exists>k \<in> set (ord (map fst al)). map_of al k = Some v}"
  by (force simp: range_values_def List.map_filter_def image_iff)

lemma map_of_filter_key:
  "map_of (filter (\<lambda>p. Q (fst p)) al) k = (if Q k then map_of al k else None)"
  by (induction al) auto

lemma range_values_empty [simp]: "range_values ord [] = []"
  by (simp add: range_values_def List.map_filter_def)

lemma range_values_Nil:
  assumes "range_values ord al = []" and "set (map fst al) \<subseteq> set (ord (map fst al))"
  shows "al = []"
proof (rule ccontr)
  assume "al \<noteq> []"
  then obtain k v rest where al: "al = (k, v) # rest" by (cases al) auto
  then have "map_of al k = Some v" by simp
  moreover from al assms(2) have "k \<in> set (ord (map fst al))" by auto
  ultimately have "v \<in> set (range_values ord al)"
    unfolding set_range_values by blast
  with assms(1) show False by simp
qed

lemma range_values_covers:
  assumes "set (map fst al) \<subseteq> set (ord (map fst al))"
  shows "set (range_values ord' al) \<subseteq> set (range_values ord al)"
proof
  fix v
  assume "v \<in> set (range_values ord' al)"
  then obtain k where k: "map_of al k = Some v" unfolding set_range_values by blast
  then have "k \<in> set (map fst al)" by (metis map_of_eq_None_iff option.distinct(1) set_map)
  with assms have "k \<in> set (ord (map fst al))" by blast
  with k show "v \<in> set (range_values ord al)" unfolding set_range_values by blast
qed

lemma quiet_append:
  "(\<forall>c \<in> set (xs @ ys). \<not> isMutation c) \<longleftrightarrow>
     (\<forall>c \<in> set xs. \<not> isMutation c) \<and> (\<forall>c \<in> set ys. \<not> isMutation c)"
  by auto

lemma quiet_map_CreateUser:
  "(\<forall>c \<in> set (map (\<lambda>u. CreateUser (newUser u)) us). \<not> isMutation c) \<Longrightarrow> us = []"
  by (cases us) auto

lemma quiet_map_CreateGroup:
  "(\<forall>c \<in> set (map (\<lambda>g. CreateGroup (Some (ag_Name g)) (Some (ag_Description g))) gs).
       \<not> isMutation c) \<Longrightarrow> gs = []"
  by (cases gs) auto

lemma quiet_map_DeleteGroup: "(\<forall>c \<in> set (map DeleteGroup gs). \<not> isMutation c) \<Longrightarrow> gs = []"
  by (cases gs) auto

lemma quiet_map_DeleteUser: "(\<forall>c \<in> set (map DeleteUser us). \<not> isMutation c) \<Longrightarrow> us = []"
  by (cases us) auto

lemma count_list_DeleteUser [simp]:
  "count_list (map DeleteUser us) (DeleteUser t) = count_list us t"
  by (induction us) auto

lemma count_list_append [simp]:
  "count_list (xs @ ys) x = count_list xs x + count_list ys x"
  by (induction xs) auto

lemma count_list_ge2_split:
  "2 \<le> count_list xs x \<Longrightarrow> \<exists>as bs cs. xs = as @ x # bs @ x # cs"
proof -
  assume two: "2 \<le> count_list xs x"
  then have "x \<in> set xs" by (metis count_list_0_iff not_numeral_le_zero)
  then obtain as rest where xs: "xs = as @ x # rest" by (meson split_list)
  with two have "1 \<le> count_list as x + count_list rest x" by simp
  then have "x \<in> set as \<or> x \<in> set rest"
    by (metis add_is_0 count_list_0_iff not_one_le_zero)
  then show ?thesis
  proof
    assume "x \<in> set as"
    then obtain a1 a2 where "as = a1 @ x # a2" by (meson split_list)
    with xs have "xs = a1 @ x # a2 @ x # rest" by simp
    then show ?thesis by blast
  next
    assume "x \<in> set rest"
    then obtain r1 r2 where "rest = r1 @ x # r2" by (meson split_list)
    with xs have "xs = as @ x # r1 @ x # r2" by simp
    then show ?thesis by blast
  qed
qed

section \<open>Calls made by the loops that stop at the first error\<close>

lemma removeMemberships_trace:
  "removeMemberships w ms h = (r, h') \<Longrightarrow>
     \<exists>n. h' = h @ map RemoveGroupMembership (take n ms)"
proof (induction ms arbitrary: h)
  case Nil
  then show ?case by simp
next
  case (Cons m ms)
  show ?case
  proof (cases "api_DeleteGroupMembership (w_store w) h (identityStoreId w) (m_MembershipId m)")
    case None
    with Cons.prems have "removeMemberships w ms (h @ [RemoveGroupMembership m]) = (r, h')"
      by (simp add: aws_RemoveGroupMembership_def)
    from Cons.IH[OF this] obtain n where
      "h' = (h @ [RemoveGroupMembership m]) @ map RemoveGroupMembership (take n ms)" by blast
    then have "h' = h @ map RemoveGroupMembership (take (Suc n) (m # ms))" by simp
    then show ?thesis by blast
  next
    case (Some e)
    with Cons.prems have "h' = h @ map RemoveGroupMembership (take 1 (m # ms))"
      by (auto simp add: aws_RemoveGroupMembership_def)
    then show ?thesis by blast
  qed
qed

lemma addMembers_trace:
  "addMembers w g us h = (r, h') \<Longrightarrow>
     \<exists>n. h' = h @ map (\<lambda>u. AddUserToGroup u g) (take n us)"
proof (induction us arbitrary: h)
  case Nil
  then show ?case by simp
next
  case (Cons u us)
  show ?case
  proof (cases "api_CreateGroupMembership (w_store w) h (g_GroupId g) (identityStoreId w)
                  (MemberIdMemberUserId (ToString (u_UserId u)))")
    case (Inr mid)
    with Cons.prems have "addMembers w g us (h @ [AddUserToGroup u g]) = (r, h')"
      by (simp add: aws_AddUserToGroup_def)
    from Cons.IH[OF this] obtain n where
      "h' = (h @ [AddUserToGroup u g]) @ map (\<lambda>u. AddUserToGroup u g) (take n us)" by blast
    then have "h' = h @ map (\<lambda>u. AddUserToGroup u g) (take (Suc n) (u # us))" by simp
    then show ?thesis by blast
  next
    case (Inl e)
    with Cons.prems have "h' = h @ map (\<lambda>u. AddUserToGroup u g) (take 1 (u # us))"
      by (auto simp add: aws_AddUserToGroup_def)
    then show ?thesis by blast
  qed
qed

lemma removeMemberships_Done:
  "removeMemberships w ms h = (Done, h') \<Longrightarrow> h' = h @ map RemoveGroupMembership ms"
proof (induction ms arbitrary: h)
  case Nil
  then show ?case by simp
next
  case (Cons m ms)
  show ?case
  proof (cases "api_DeleteGroupMembership (w_store w) h (identityStoreId w) (m_MembershipId m)")
    case None
    with Cons.prems have "removeMemberships w ms (h @ [RemoveGroupMembership m]) = (Done, h')"
      by (simp add: aws_RemoveGroupMembership_def)
    from Cons.IH[OF this] show ?thesis by simp
  next
    case (Some e)
    with Cons.prems show ?thesis by (simp add: aws_RemoveGroupMembership_def)
  qed
qed

lemma addMembers_Done:
  "addMembers w g us h = (Done, h') \<Longrightarrow> h' = h @ map (\<lambda>u. AddUserToGroup u g) us"
proof (induction us arbitrary: h)
  case Nil
  then show ?case by simp
next
  case (Cons u us)
  show ?case
  proof (cases "api_CreateGroupMembership (w_store w) h (g_GroupId g) (identityStoreId w)
                  (MemberIdMemberUserId (ToString (u_UserId u)))")
    case (Inr mid)
    with Cons.prems have "addMembers w g us (h @ [AddUserToGroup u g]) = (Done, h')"
      by (simp add: aws_AddUserToGroup_def)
    from Cons.IH[OF this] show ?thesis by simp
  next
    case (Inl e)
    with Cons.prems show ?thesis by (simp add: aws_AddUserToGroup_def)
  qed
qed

lemma deleteGroups_trace:
  "deleteGroups w gs h = (r, h') \<Longrightarrow>
     \<exists>n. h' = h @ map DeleteGroup (take n gs) \<and> (r = Done \<longrightarrow> n = length gs) \<and>
         (gs \<noteq> [] \<longrightarrow> 0 < n)"
proof (induction gs arbitrary: h)
  case Nil
  then show ?case by simp
next
  case (Cons g gs)
  show ?case
  proof (cases "api_DeleteGroup (w_store w) h (g_GroupId g) (identityStoreId w)")
    case None
    with Cons.prems have "deleteGroups w gs (h @ [DeleteGroup g]) = (r, h')"
      by (simp add: aws_DeleteGroup_def)
    from Cons.IH[OF this] obtain n where
      "h' = (h @ [DeleteGroup g]) @ map DeleteGroup (take n gs)" "r = Done \<longrightarrow> n = length gs"
      by blast
    then have "h' = h @ map DeleteGroup (take (Suc n) (g # gs)) \<and>
        (r = Done \<longrightarrow> Suc n = length (g # gs)) \<and> 0 < Suc n" by simp
    then show ?thesis by blast
  next
    case (Some e)
    with Cons.prems have "h' = h @ map DeleteGroup (take 1 (g # gs)) \<and> r \<noteq> Done \<and> (0::nat) < 1"
      by (auto simp add: aws_DeleteGroup_def)
    then show ?thesis by blast
  qed
qed

lemma RemoveUsers_trace:
  "RemoveUsers w us h = (r, h') \<Longrightarrow>
     \<exists>n. h' = h @ map DeleteUser (take n us) \<and> (r = Done \<longrightarrow> n = length us) \<and>
         (us \<noteq> [] \<longrightarrow> 0 < n)"
proof (induction us arbitrary: h)
  case Nil
  then show ?case by simp
next
  case (Cons u us)
  show ?case
  proof (cases "api_DeleteUser (w_store w) h (identityStoreId w) (u_UserId u)")
    case None
    with Cons.prems have "RemoveUsers w us (h @ [DeleteUser u]) = (r, h')"
      by (simp add: aws_DeleteUser_def)
    from Cons.IH[OF this] obtain n where
      "h' = (h @ [DeleteUser u]) @ map DeleteUser (take n us)" "r = Done \<longrightarrow> n = length us"
      by blast
    then have "h' = h @ map DeleteUser (take (Suc n) (u # us)) \<and>
        (r = Done \<longrightarrow> Suc n = length (u # us)) \<and> 0 < Suc n" by simp
    then show ?thesis by blast
  next
    case (Some e)
    with Cons.prems have "h' = h @ map DeleteUser (take 1 (u # us)) \<and> r \<noteq> Done \<and> (0::nat) < 1"
      by (auto simp add: aws_DeleteUser_def)
    then show ?thesis by blast
  qed
qed

lemma RemoveUsers_append:
  "RemoveUsers w (xs @ ys) h =
     (case RemoveUsers w xs h of (Done, h1) \<Rightarrow> RemoveUsers w ys h1 | (r, h1) \<Rightarrow> (r, h1))"
proof (induction xs arbitrary: h)
  case Nil
  then show ?case by simp
next
  case (Cons u xs)
  show ?case
    by (cases "api_DeleteUser (w_store w) h (identityStoreId w) (u_UserId u)")
       (simp_all add: aws_DeleteUser_def Cons.IH)
qed

lemma RemoveUsers_second_request:
  assumes "fst (RemoveUsers w (xs @ t # ys) h) = Done"
  shows "2 \<le> count_list (drop (length h) (snd (RemoveUsers w (xs @ t # ys @ t # zs) h))) (DeleteUser t)"
proof -
  obtain h1 where first: "RemoveUsers w (xs @ t # ys) h = (Done, h1)"
    using assms by (cases "RemoveUsers w (xs @ t # ys) h") auto
  from RemoveUsers_trace[OF first] have h1: "h1 = h @ map DeleteUser (xs @ t # ys)" by auto
  obtain r h' where second: "RemoveUsers w (t # zs) h1 = (r, h')"
    by (cases "RemoveUsers w (t # zs) h1")
  from RemoveUsers_trace[OF second] obtain n where
    n: "h' = h1 @ map DeleteUser (take n (t # zs))" "0 < n" by auto
  then obtain m where "n = Suc m" by (cases n) auto
  with n have h': "h' = h1 @ DeleteUser t # map DeleteUser (take m zs)" by simp
  have "RemoveUsers w (xs @ t # ys @ t # zs) h = (r, h')"
    using RemoveUsers_append[of w "xs @ t # ys" "t # zs" h] first second by simp
  then have "drop (length h) (snd (RemoveUsers w (xs @ t # ys @ t # zs) h)) =
      map DeleteUser (xs @ t # ys) @ DeleteUser t # map DeleteUser (take m zs)"
    by (simp add: h' h1)
  then show ?thesis by simp
qed

section \<open>Membership reconciliation\<close>

lemma addMember_fold_index:
  "map_of (foldl (addMember usr) ml ms) k = Some u \<Longrightarrow>
     map_of ml k = Some u \<or> index usr k = Some u"
proof (induction ms arbitrary: ml)
  case Nil
  then show ?case by simp
next
  case (Cons m ms)
  from Cons.IH[of "addMember usr ml m"] Cons.prems
  have "map_of (addMember usr ml m) k = Some u \<or> index usr k = Some u" by simp
  then show ?case
    by (auto simp: addMember_def update_conv' split: option.splits if_splits)
qed

lemma diffMembers_desired:
  assumes "diffMembers usr ms (toDel, ml) = Some (toDel', ml')"
  shows "(\<forall>k u. map_of ml' k = Some u \<longrightarrow> map_of ml k = Some u) \<and>
         (\<forall>m \<in> set ms. \<forall>v user. m_MemberId m = MemberIdMemberUserId v \<longrightarrow>
              indexByUserId usr v = Some user \<longrightarrow>
              map_of ml' (ToString (u_UserName user)) = None)"
  using assms
proof (induction ms arbitrary: toDel ml)
  case Nil
  then show ?case by simp
next
  case (Cons m ms)
  show ?case
  proof (cases "m_MemberId m")
    case UnknownUnionMember
    with Cons.prems show ?thesis by simp
  next
    case (MemberIdMemberUserId v)
    show ?thesis
    proof (cases "indexByUserId usr v")
      case None
      with Cons.prems MemberIdMemberUserId
      have "diffMembers usr ms (toDel @ [m], ml) = Some (toDel', ml')" by simp
      from Cons.IH[OF this] None MemberIdMemberUserId show ?thesis by auto
    next
      case (Some user)
      let ?k = "ToString (u_UserName user)"
      from Cons.prems MemberIdMemberUserId Some
      have "diffMembers usr ms
              (if map_of ml ?k = None then toDel @ [m] else toDel, AList.delete ?k ml) =
            Some (toDel', ml')" by simp
      from Cons.IH[OF this]
      have keep: "\<forall>k u. map_of ml' k = Some u \<longrightarrow> map_of (AList.delete ?k ml) k = Some u"
        and rest: "\<forall>m \<in> set ms. \<forall>v user. m_MemberId m = MemberIdMemberUserId v \<longrightarrow>
              indexByUserId usr v = Some user \<longrightarrow>
              map_of ml' (ToString (u_UserName user)) = None" by blast+
      have gone: "map_of ml' ?k = None"
      proof (cases "map_of ml' ?k")
        case (Some u)
        with keep have "map_of (AList.delete ?k ml) ?k = Some u" by blast
        then show ?thesis by (simp add: delete_conv')
      qed simp
      have "map_of ml k = Some u" if "map_of ml' k = Some u" for k u
      proof -
        from that keep have "map_of (AList.delete ?k ml) k = Some u" by blast
        then show ?thesis by (cases "k = ?k") (simp_all add: delete_conv')
      qed
      then have "\<forall>k u. map_of ml' k = Some u \<longrightarrow> map_of ml k = Some u" by blast
      moreover have "\<forall>m' \<in> set (m # ms). \<forall>v' user'. m_MemberId m' = MemberIdMemberUserId v' \<longrightarrow>
              indexByUserId usr v' = Some user' \<longrightarrow>
              map_of ml' (ToString (u_UserName user')) = None"
        using rest gone MemberIdMemberUserId Some by auto
      ultimately show ?thesis by blast
    qed
  qed
qed

lemma diffMembers_not_listed:
  assumes diff: "diffMembers usr members ([], foldl (addMember usr) [] ms) = Some (toDel, ml)"
    and tgt: "drain (tgt_MembershipsPages (w_target w) (g_GroupId g)) [] = (members, err)"
    and u: "u \<in> set (range_values ord ml)"
  shows "\<exists>k. index usr k = Some u \<and> \<not> listedUnder w usr g k"
proof -
  from u obtain k where k: "map_of ml k = Some u"
    unfolding set_range_values by blast
  note d = diffMembers_desired[OF diff]
  from d k have "map_of (foldl (addMember usr) [] ms) k = Some u" by blast
  from addMember_fold_index[OF this] have idx: "index usr k = Some u" by simp
  have "\<not> listedUnder w usr g k"
  proof
    assume "listedUnder w usr g k"
    then obtain m where m: "m \<in> set members"
      and res: "case m_MemberId m of
          MemberIdMemberUserId v \<Rightarrow>
            (case indexByUserId usr v of
               None \<Rightarrow> False
             | Some user \<Rightarrow> ToString (u_UserName user) = k)
        | UnknownUnionMember \<Rightarrow> False"
      unfolding listedUnder_def tgt by auto
    from res obtain v where v: "m_MemberId m = MemberIdMemberUserId v"
      by (cases "m_MemberId m") auto
    with res obtain user where user: "indexByUserId usr v = Some user"
      "ToString (u_UserName user) = k"
      by (cases "indexByUserId usr v") auto
    from d m v user(1) have "map_of ml (ToString (u_UserName user)) = None" by blast
    with user(2) k show False by simp
  qed
  with idx show ?thesis by blast
qed

lemma listings_removals_additions:
  assumes "h' = h @ ls @ map RemoveGroupMembership rs @ map (\<lambda>u. AddUserToGroup u g) us"
    and "\<forall>u \<in> set us. \<exists>k. index usr k = Some u \<and> \<not> listedUnder w usr g k"
    and "\<forall>c \<in> set ls. (\<exists>g. c = GoogleGetGroupMembers g) \<or> (\<exists>g. c = AwsGetGroupMembers g)"
  shows "\<exists>ls rs us.
           h' = h @ ls @ map RemoveGroupMembership rs @ map (\<lambda>u. AddUserToGroup u g) us \<and>
           (\<forall>c \<in> set ls. (\<exists>g. c = GoogleGetGroupMembers g) \<or> (\<exists>g. c = AwsGetGroupMembers g)) \<and>
           (\<forall>u \<in> set us. \<exists>k. index usr k = Some u \<and> \<not> listedUnder w usr g k)"
  using assms by blast

lemma SyncMembershipsForGroup_phases:
  assumes run: "SyncMembershipsForGroup w googleGroup awsGroup usr h = (r, h')"
  shows "\<exists>ls rs us.
           h' = h @ ls @ map RemoveGroupMembership rs @ map (\<lambda>u. AddUserToGroup u awsGroup) us \<and>
           (\<forall>c \<in> set ls. (\<exists>g. c = GoogleGetGroupMembers g) \<or> (\<exists>g. c = AwsGetGroupMembers g)) \<and>
           (\<forall>u \<in> set us. \<exists>k. index usr k = Some u \<and> \<not> listedUnder w usr awsGroup k)"
proof (cases googleGroup)
  case None
  with run have "h' = h @ [] @ map RemoveGroupMembership []
      @ map (\<lambda>u. AddUserToGroup u awsGroup) []"
    by (simp add: SyncMembershipsForGroup_def)
  then show ?thesis by (rule listings_removals_additions) simp_all
next
  case (Some gg)
  let ?h2 = "h @ [GoogleGetGroupMembers gg, AwsGetGroupMembers awsGroup]"
  show ?thesis
  proof (cases "src_GroupMembers (w_source w) gg")
    case (Inl err)
    with run Some have "h' = h @ [GoogleGetGroupMembers gg] @ map RemoveGroupMembership []
        @ map (\<lambda>u. AddUserToGroup u awsGroup) []"
      by (simp add: SyncMembershipsForGroup_def google_GetGroupMembers_def)
    then show ?thesis by (rule listings_removals_additions) simp_all
  next
    case (Inr groupMembers)
    obtain awsMembers err where dr:
      "drain (tgt_MembershipsPages (w_target w) (g_GroupId awsGroup)) [] = (awsMembers, err)"
      by (cases "drain (tgt_MembershipsPages (w_target w) (g_GroupId awsGroup)) []")
    have stop: ?thesis if "h' = ?h2"
    proof -
      from that have "h' = h @ [GoogleGetGroupMembers gg, AwsGetGroupMembers awsGroup]
          @ map RemoveGroupMembership [] @ map (\<lambda>u. AddUserToGroup u awsGroup) []" by simp
      then show ?thesis by (rule listings_removals_additions) simp_all
    qed
    show ?thesis
    proof (cases err)
      case (Some e)
      with run \<open>googleGroup = Some gg\<close> Inr dr have "h' = ?h2"
        by (simp add: SyncMembershipsForGroup_def google_GetGroupMembers_def
              aws_GetGroupMembers_def)
      then show ?thesis by (rule stop)
    next
      case None
      show ?thesis
      proof (cases "diffMembers usr awsMembers ([], foldl (addMember usr) [] groupMembers)")
        case None
        with run \<open>googleGroup = Some gg\<close> Inr dr \<open>err = None\<close> have "h' = ?h2"
          by (simp add: SyncMembershipsForGroup_def google_GetGroupMembers_def
                aws_GetGroupMembers_def)
        then show ?thesis by (rule stop)
      next
        case (Some st)
        obtain toDel memberList where st: "st = (toDel, memberList)" by (cases st)
        obtain r1 h3 where rm: "removeMemberships w toDel ?h2 = (r1, h3)"
          by (cases "removeMemberships w toDel ?h2")
        from removeMemberships_trace[OF rm] obtain n where
          h3: "h3 = ?h2 @ map RemoveGroupMembership (take n toDel)" by blast
        show ?thesis
        proof (cases "r1 = Done")
          case True
          with run \<open>googleGroup = Some gg\<close> Inr dr \<open>err = None\<close> Some st rm
          have "addMembers w awsGroup (range_values (mapOrder w h3) memberList) h3 = (r, h')"
            by (simp add: SyncMembershipsForGroup_def google_GetGroupMembers_def
                  aws_GetGroupMembers_def)
          from addMembers_trace[OF this] obtain k where
            "h' = h3 @ map (\<lambda>u. AddUserToGroup u awsGroup)
                         (take k (range_values (mapOrder w h3) memberList))" by blast
          with h3 have "h' = h @ [GoogleGetGroupMembers gg, AwsGetGroupMembers awsGroup]
              @ map RemoveGroupMembership (take n toDel)
              @ map (\<lambda>u. AddUserToGroup u awsGroup)
                         (take k (range_values (mapOrder w h3) memberList))" by simp
          moreover have "\<forall>u \<in> set (take k (range_values (mapOrder w h3) memberList)).
              \<exists>k. index usr k = Some u \<and> \<not> listedUnder w usr awsGroup k"
          proof
            fix u
            assume "u \<in> set (take k (range_values (mapOrder w h3) memberList))"
            then have "u \<in> set (range_values (mapOrder w h3) memberList)"
              by (rule in_set_takeD)
            with Some st dr show "\<exists>k. index usr k = Some u \<and> \<not> listedUnder w usr awsGroup k"
              by (auto intro: diffMembers_not_listed)
          qed
          ultimately show ?thesis by (rule listings_removals_additions) simp_all
        next
          case False
          with run \<open>googleGroup = Some gg\<close> Inr dr \<open>err = None\<close> Some st rm
          have "h' = h3"
            by (cases r1) (simp_all add: SyncMembershipsForGroup_def google_GetGroupMembers_def
                  aws_GetGroupMembers_def)
          with h3 have "h' = h @ [GoogleGetGroupMembers gg, AwsGetGroupMembers awsGroup]
              @ map RemoveGroupMembership (take n toDel)
              @ map (\<lambda>u. AddUserToGroup u awsGroup) []" by simp
          then show ?thesis by (rule listings_removals_additions) simp_all
        qed
      qed
    qed
  qed
qed

lemma SyncMembershipsForGroup_calls:
  assumes "SyncMembershipsForGroup w googleGroup awsGroup usr h = (r, h')"
  shows "\<exists>t. h' = h @ t \<and> (\<forall>c \<in> set t. groupCall cfg gs c)"
proof -
  from SyncMembershipsForGroup_phases[OF assms] obtain ls rs us where
    h': "h' = h @ ls @ map RemoveGroupMembership rs @ map (\<lambda>u. AddUserToGroup u awsGroup) us"
    and ls: "\<forall>c \<in> set ls. (\<exists>g. c = GoogleGetGroupMembers g) \<or> (\<exists>g. c = AwsGetGroupMembers g)"
    by blast
  show ?thesis
    by (rule exI[of _ "ls @ map RemoveGroupMembership rs @ map (\<lambda>u. AddUserToGroup u awsGroup) us"])
       (use h' ls in auto)
qed

lemma syncMemberships_calls:
  assumes "syncMemberships w ggi usr gl h = (r, h')"
  shows "\<exists>t. h' = h @ t \<and> (\<forall>c \<in> set t. groupCall cfg gs c)"
  using assms
proof (induction gl arbitrary: h)
  case Nil
  show ?case by (rule exI[of _ "[]"]) (use Nil in simp)
next
  case (Cons g gl)
  obtain r1 h1 where one: "SyncMembershipsForGroup w (ggi (ToString (g_DisplayName g))) g usr h = (r1, h1)"
    by (cases "SyncMembershipsForGroup w (ggi (ToString (g_DisplayName g))) g usr h")
  from SyncMembershipsForGroup_calls[OF one, of cfg gs] obtain t1 where
    t1: "h1 = h @ t1" "\<forall>c \<in> set t1. groupCall cfg gs c" by blast
  show ?case
  proof (cases "r1 = Done")
    case True
    with Cons.prems one have "syncMemberships w ggi usr gl h1 = (r, h')" by simp
    from Cons.IH[OF this] obtain t2 where t2: "h' = h1 @ t2" "\<forall>c \<in> set t2. groupCall cfg gs c"
      by blast
    show ?thesis by (rule exI[of _ "t1 @ t2"]) (use t1 t2 in auto)
  next
    case False
    with Cons.prems one have "h' = h1" by (cases r1) simp_all
    then show ?thesis by - (rule exI[of _ t1], use t1 in auto)
  qed
qed

lemma SyncMembershipsForGroup_Done:
  assumes run: "SyncMembershipsForGroup w sg g usr h = (Done, h')"
  obtains gg ms members toDel ml where
    "sg = Some gg"
    "src_GroupMembers (w_source w) gg = Inr ms"
    "drain (tgt_MembershipsPages (w_target w) (g_GroupId g)) [] = (members, None)"
    "diffMembers usr members ([], foldl (addMember usr) [] ms) = Some (toDel, ml)"
    "h' = h @ [GoogleGetGroupMembers gg, AwsGetGroupMembers g] @ map RemoveGroupMembership toDel @
          map (\<lambda>u. AddUserToGroup u g)
            (range_values (mapOrder w (h @ [GoogleGetGroupMembers gg, AwsGetGroupMembers g] @
                map RemoveGroupMembership toDel)) ml)"
proof (cases sg)
  case None
  with run show ?thesis by (simp add: SyncMembershipsForGroup_def)
next
  case (Some gg)
  let ?h2 = "h @ [GoogleGetGroupMembers gg, AwsGetGroupMembers g]"
  show ?thesis
  proof (cases "src_GroupMembers (w_source w) gg")
    case (Inl err)
    with run Some show ?thesis
      by (simp add: SyncMembershipsForGroup_def google_GetGroupMembers_def)
  next
    case (Inr ms)
    obtain members err where dr:
      "drain (tgt_MembershipsPages (w_target w) (g_GroupId g)) [] = (members, err)"
      by (cases "drain (tgt_MembershipsPages (w_target w) (g_GroupId g)) []")
    show ?thesis
    proof (cases err)
      case (Some e)
      with run \<open>sg = Some gg\<close> Inr dr show ?thesis
        by (simp add: SyncMembershipsForGroup_def google_GetGroupMembers_def
              aws_GetGroupMembers_def)
    next
      case None
      show ?thesis
      proof (cases "diffMembers usr members ([], foldl (addMember usr) [] ms)")
        case None
        with run \<open>sg = Some gg\<close> Inr dr \<open>err = None\<close> show ?thesis
          by (simp add: SyncMembershipsForGroup_def google_GetGroupMembers_def
                aws_GetGroupMembers_def)
      next
        case (Some st)
        obtain toDel ml where st: "st = (toDel, ml)" by (cases st)
        obtain r1 h3 where rm: "removeMemberships w toDel ?h2 = (r1, h3)"
          by (cases "removeMemberships w toDel ?h2")
        show ?thesis
        proof (cases "r1 = Done")
          case True
          from removeMemberships_Done[OF rm[unfolded True]]
          have h3: "h3 = ?h2 @ map RemoveGroupMembership toDel" .
          from True run \<open>sg = Some gg\<close> Inr dr \<open>err = None\<close> Some st rm
          have "addMembers w g (range_values (mapOrder w h3) ml) h3 = (Done, h')"
            by (simp add: SyncMembershipsForGroup_def google_GetGroupMembers_def
                  aws_GetGroupMembers_def)
          from addMembers_Done[OF this]
          have "h' = h3 @ map (\<lambda>u. AddUserToGroup u g) (range_values (mapOrder w h3) ml)" .
          with h3 have "h' = h @ [GoogleGetGroupMembers gg, AwsGetGroupMembers g] @
              map RemoveGroupMembership toDel @
              map (\<lambda>u. AddUserToGroup u g)
                (range_values (mapOrder w (h @ [GoogleGetGroupMembers gg, AwsGetGroupMembers g] @
                    map RemoveGroupMembership toDel)) ml)" by simp
          with \<open>sg = Some gg\<close> Inr dr \<open>err = None\<close> Some st that show ?thesis by blast
        next
          case False
          with run \<open>sg = Some gg\<close> Inr dr \<open>err = None\<close> Some st rm
          show ?thesis
            by (cases r1) (simp_all add: SyncMembershipsForGroup_def google_GetGroupMembers_def
                  aws_GetGroupMembers_def)
        qed
      qed
    qed
  qed
qed

text \<open>
  A reconciliation of one group that completes without a mutation found nothing to remove
  and nothing to add, provided the walk over the desired members visits every key.
\<close>

lemma SyncMembershipsForGroup_quiet:
  assumes run: "SyncMembershipsForGroup w sg g usr h = (Done, h @ t)"
    and quiet: "\<forall>c \<in> set t. \<not> isMutation c"
    and order: "\<forall>h ks. set ks \<subseteq> set (mapOrder w h ks)"
  obtains gg ms members where
    "sg = Some gg"
    "src_GroupMembers (w_source w) gg = Inr ms"
    "drain (tgt_MembershipsPages (w_target w) (g_GroupId g)) [] = (members, None)"
    "diffMembers usr members ([], foldl (addMember usr) [] ms) = Some ([], [])"
proof -
  from run obtain gg ms members toDel ml where
    sg: "sg = Some gg"
    and src: "src_GroupMembers (w_source w) gg = Inr ms"
    and tgt: "drain (tgt_MembershipsPages (w_target w) (g_GroupId g)) [] = (members, None)"
    and diff: "diffMembers usr members ([], foldl (addMember usr) [] ms) = Some (toDel, ml)"
    and calls: "h @ t = h @ [GoogleGetGroupMembers gg, AwsGetGroupMembers g] @
          map RemoveGroupMembership toDel @
          map (\<lambda>u. AddUserToGroup u g)
            (range_values (mapOrder w (h @ [GoogleGetGroupMembers gg, AwsGetGroupMembers g] @
                map RemoveGroupMembership toDel)) ml)"
    by (rule SyncMembershipsForGroup_Done)
  let ?adds = "range_values (mapOrder w (h @ [GoogleGetGroupMembers gg, AwsGetGroupMembers g] @
                map RemoveGroupMembership toDel)) ml"
  from calls have t: "t = [GoogleGetGroupMembers gg, AwsGetGroupMembers g] @
          map RemoveGroupMembership toDel @ map (\<lambda>u. AddUserToGroup u g) ?adds" by simp
  have "toDel = []"
  proof (cases toDel)
    case (Cons m rest)
    then have "RemoveGroupMembership m \<in> set t" unfolding t by simp
    with quiet show ?thesis by force
  qed simp
  have "?adds = []"
  proof (cases ?adds)
    case (Cons u rest)
    then have "AddUserToGroup u g \<in> set t" unfolding t by simp
    with quiet show ?thesis by force
  qed simp
  moreover from order have "set (map fst ml) \<subseteq> set (mapOrder w (h @ [GoogleGetGroupMembers gg, AwsGetGroupMembers g] @
                map RemoveGroupMembership toDel) (map fst ml))"
    by blast
  ultimately have "ml = []" by (rule range_values_Nil)
  with sg src tgt diff \<open>toDel = []\<close> that show ?thesis by blast
qed

lemma SyncMembershipsForGroup_nothing_to_do:
  assumes "src_GroupMembers (w_source w) gg = Inr ms"
    "drain (tgt_MembershipsPages (w_target w) (g_GroupId g)) [] = (members, None)"
    "diffMembers usr members ([], foldl (addMember usr) [] ms) = Some ([], [])"
  shows "SyncMembershipsForGroup w (Some gg) g usr h =
           (Done, h @ [GoogleGetGroupMembers gg, AwsGetGroupMembers g])"
  using assms
  by (simp add: SyncMembershipsForGroup_def google_GetGroupMembers_def aws_GetGroupMembers_def)

lemma nothingToDo_after_quiet:
  assumes "SyncMembershipsForGroup w sg g usr h = (Done, h @ t)"
    and "\<forall>c \<in> set t. \<not> isMutation c"
    and "\<forall>h ks. set ks \<subseteq> set (mapOrder w h ks)"
  shows "nothingToDo (w_source w) (w_target w) usr sg g"
  using assms
  by (rule SyncMembershipsForGroup_quiet) (simp add: nothingToDo_def)

lemma nothingToDo_run:
  assumes "nothingToDo (w_source w) (w_target w) usr sg g"
  shows "\<exists>t. SyncMembershipsForGroup w sg g usr h = (Done, h @ t) \<and> (\<forall>c \<in> set t. \<not> isMutation c)"
proof -
  from assms obtain gg ms members where "sg = Some gg"
    "src_GroupMembers (w_source w) gg = Inr ms"
    "drain (tgt_MembershipsPages (w_target w) (g_GroupId g)) [] = (members, None)"
    "diffMembers usr members ([], foldl (addMember usr) [] ms) = Some ([], [])"
    by (auto simp: nothingToDo_def split: option.splits sum.splits prod.splits)
  then have "SyncMembershipsForGroup w sg g usr h =
      (Done, h @ [GoogleGetGroupMembers gg, AwsGetGroupMembers g])"
    using SyncMembershipsForGroup_nothing_to_do by simp
  then show ?thesis
    by - (rule exI[of _ "[GoogleGetGroupMembers gg, AwsGetGroupMembers g]"], simp)
qed

lemma syncMemberships_after_quiet:
  assumes "syncMemberships w ggi usr gl h = (Done, h @ t)"
    and "\<forall>c \<in> set t. \<not> isMutation c"
    and order: "\<forall>h ks. set ks \<subseteq> set (mapOrder w h ks)"
  shows "\<forall>g \<in> set gl. nothingToDo (w_source w) (w_target w) usr (ggi (ToString (g_DisplayName g))) g"
  using assms(1,2)
proof (induction gl arbitrary: h t)
  case Nil
  then show ?case by simp
next
  case (Cons g gl)
  obtain r1 h1 where one: "SyncMembershipsForGroup w (ggi (ToString (g_DisplayName g))) g usr h = (r1, h1)"
    by (cases "SyncMembershipsForGroup w (ggi (ToString (g_DisplayName g))) g usr h")
  have r1: "r1 = Done"
    using Cons.prems(1) one by (cases r1) simp_all
  from SyncMembershipsForGroup_calls[OF one, of cfg0 "[]"] obtain t1 where t1: "h1 = h @ t1"
    by blast
  from Cons.prems(1) one r1 have rest: "syncMemberships w ggi usr gl h1 = (Done, h @ t)" by simp
  from syncMemberships_calls[OF rest, of cfg0 "[]"] obtain t2 where "h @ t = h1 @ t2" by blast
  with t1 have t: "t = t1 @ t2" by simp
  with Cons.prems(2) have q1: "\<forall>c \<in> set t1. \<not> isMutation c" and q2: "\<forall>c \<in> set t2. \<not> isMutation c"
    by (simp_all add: quiet_append)
  from one r1 t1 have "SyncMembershipsForGroup w (ggi (ToString (g_DisplayName g))) g usr h = (Done, h @ t1)"
    by simp
  from nothingToDo_after_quiet[OF this q1 order]
  have here: "nothingToDo (w_source w) (w_target w) usr (ggi (ToString (g_DisplayName g))) g" .
  from rest t1 t have "syncMemberships w ggi usr gl h1 = (Done, h1 @ t2)" by simp
  from Cons.IH[OF this q2] here show ?case by simp
qed

lemma syncMemberships_nothing_to_do:
  assumes "\<forall>g \<in> set gl. nothingToDo (w_source w) (w_target w) usr (ggi (ToString (g_DisplayName g))) g"
  shows "\<exists>t. syncMemberships w ggi usr gl h = (Done, h @ t) \<and> (\<forall>c \<in> set t. \<not> isMutation c)"
  using assms
proof (induction gl arbitrary: h)
  case Nil
  show ?case by (rule exI[of _ "[]"]) simp
next
  case (Cons g gl)
  from Cons.prems have "nothingToDo (w_source w) (w_target w) usr (ggi (ToString (g_DisplayName g))) g"
    by simp
  from nothingToDo_run[OF this, of h] obtain t1 where
    one: "SyncMembershipsForGroup w (ggi (ToString (g_DisplayName g))) g usr h = (Done, h @ t1)"
    and q1: "\<forall>c \<in> set t1. \<not> isMutation c" by blast
  from Cons.prems have "\<forall>g \<in> set gl. nothingToDo (w_source w) (w_target w) usr (ggi (ToString (g_DisplayName g))) g"
    by simp
  from Cons.IH[OF this, of "h @ t1"] obtain t2 where
    rest: "syncMemberships w ggi usr gl (h @ t1) = (Done, (h @ t1) @ t2)"
    and q2: "\<forall>c \<in> set t2. \<not> isMutation c" by blast
  show ?case
    by (rule exI[of _ "t1 @ t2"]) (use one rest q1 q2 in auto)
qed

text \<open>
  C7. Within the reconciliation of one group, the calls made are the two listings, then
  \<open>RemoveGroupMembership\<close> calls only, then \<open>AddUserToGroup\<close> calls only: every removal is
  issued before any addition, whatever the outcome of the reconciliation. Moreover every
  addition is for a user of the username index, filed there under a username to which no
  listed membership of the group resolves: the reconciliation never adds a membership for
  a user whose membership it found listed.
\<close>

theorem removals_before_additions:
  assumes run: "SyncMembershipsForGroup w googleGroup awsGroup usr h = (r, h')"
  shows "\<exists>listings removals additions.
           h' = h @ listings @ removals @ additions \<and>
           (\<forall>c \<in> set listings. \<not> isMutation c) \<and>
           (\<forall>c \<in> set removals. isRemoveGroupMembership c) \<and>
           (\<forall>c \<in> set additions. isAddUserToGroup c) \<and>
           (\<forall>c \<in> set additions. \<exists>u k. c = AddUserToGroup u awsGroup \<and> index usr k = Some u \<and>
                                      \<not> listedUnder w usr awsGroup k)"
proof -
  from SyncMembershipsForGroup_phases[OF run] obtain ls rs us where
    h': "h' = h @ ls @ map RemoveGroupMembership rs @ map (\<lambda>u. AddUserToGroup u awsGroup) us"
    and ls: "\<forall>c \<in> set ls. (\<exists>g. c = GoogleGetGroupMembers g) \<or> (\<exists>g. c = AwsGetGroupMembers g)"
    and us: "\<forall>u \<in> set us. \<exists>k. index usr k = Some u \<and> \<not> listedUnder w usr awsGroup k"
    by blast
  have "\<forall>c \<in> set ls. \<not> isMutation c"
    using ls by auto
  moreover have "\<forall>c \<in> set (map RemoveGroupMembership rs). isRemoveGroupMembership c"
    by simp
  moreover have "\<forall>c \<in> set (map (\<lambda>u. AddUserToGroup u awsGroup) us). isAddUserToGroup c"
    by simp
  moreover have "\<forall>c \<in> set (map (\<lambda>u. AddUserToGroup u awsGroup) us).
      \<exists>u k. c = AddUserToGroup u awsGroup \<and> index usr k = Some u \<and> \<not> listedUnder w usr awsGroup k"
    using us by auto
  ultimately show ?thesis
    using h' by blast
qed

theorem removals_before_additions_witness:
  "SyncMembershipsForGroup (membersWorld [staleMembership]) (Some engSource) engTarget
       bobIndexed [] =
     (Done, [GoogleGetGroupMembers engSource, AwsGetGroupMembers engTarget,
             RemoveGroupMembership staleMembership,
             AddUserToGroup (mkUser ''b@x.com'' ''u-2'') engTarget]) \<and>
   (\<exists>listings removals additions.
      [GoogleGetGroupMembers engSource, AwsGetGroupMembers engTarget,
       RemoveGroupMembership staleMembership,
       AddUserToGroup (mkUser ''b@x.com'' ''u-2'') engTarget] =
        [] @ listings @ removals @ additions \<and>
      (\<forall>c \<in> set listings. \<not> isMutation c) \<and>
      (\<forall>c \<in> set removals. isRemoveGroupMembership c) \<and>
      (\<forall>c \<in> set additions. isAddUserToGroup c) \<and>
      (\<forall>c \<in> set additions. \<exists>u k. c = AddUserToGroup u engTarget \<and> index bobIndexed k = Some u \<and>
                                 \<not> listedUnder (membersWorld [staleMembership]) bobIndexed engTarget k))"
proof -
  have run: "SyncMembershipsForGroup (membersWorld [staleMembership]) (Some engSource) engTarget
       bobIndexed [] =
     (Done, [GoogleGetGroupMembers engSource, AwsGetGroupMembers engTarget,
             RemoveGroupMembership staleMembership,
             AddUserToGroup (mkUser ''b@x.com'' ''u-2'') engTarget])"
    by (simp add: sync_defs adapter_defs world_defs)
  show ?thesis by (rule conjI[OF run removals_before_additions[OF run]])
qed

text \<open>
  C5, at a failing input. The target lists one membership of group \<open>Eng\<close> whose member id
  is not a user id. The checked type assertion leaves \<open>userId\<close> nil, the mismatch is
  logged, and the read of \<open>userId.Value\<close> panics: the run ends in a panic after the two
  membership listings, and the membership is not removed.
\<close>

theorem cast_mismatch_panics:
  "DoSync cfg0 (membersWorld [oddMembership]) [] =
     (Panicked, [AwsGetUsers, GoogleGetDeletedUsers, GoogleGetUsers [], AwsGetGroups,
                 GoogleGetGroups [], GoogleGetGroupMembers engSource,
                 AwsGetGroupMembers engTarget])"
  by (simp add: sync_defs adapter_defs world_defs)

section \<open>Group reconciliation\<close>

lemma indexGroup_fold:
  "map_of (foldl indexGroup gi gs) k = Some g \<Longrightarrow>
     map_of gi k = Some g \<or> (g \<in> set gs \<and> k = ToString (g_DisplayName g))"
proof (induction gs arbitrary: gi)
  case Nil
  then show ?case by simp
next
  case (Cons a gs)
  from Cons.IH[of "indexGroup gi a"] Cons.prems
  have "map_of (indexGroup gi a) k = Some g \<or> (g \<in> set gs \<and> k = ToString (g_DisplayName g))"
    by simp
  then show ?case
    by (auto simp: indexGroup_def update_conv' split: if_splits)
qed

lemma indexGroup_fold_keys:
  "fst ` set (foldl indexGroup gi gs) =
     fst ` set gi \<union> (\<lambda>g. ToString (g_DisplayName g)) ` set gs"
  by (induction gs arbitrary: gi) (auto simp: indexGroup_def dom_update)

text \<open>One step of the loop over the source groups, case by case.\<close>

lemma syncGroup_cases:
  obtains
    (ignored) "ignoreGroup cfg (ag_Email g)" "syncGroup cfg w (ggi, gi, h) g = (ggi, gi, h)"
  | (exists) "\<not> ignoreGroup cfg (ag_Email g)" "map_of gi (ag_Name g) \<noteq> None"
      "syncGroup cfg w (ggi, gi, h) g = (ggi(ag_Name g \<mapsto> g), gi, h)"
  | (failed) "\<not> ignoreGroup cfg (ag_Email g)" "map_of gi (ag_Name g) = None"
      "syncGroup cfg w (ggi, gi, h) g =
         (ggi(ag_Name g \<mapsto> g), gi, h @ [CreateGroup (Some (ag_Name g)) (Some (ag_Description g))])"
  | (created) gid where "\<not> ignoreGroup cfg (ag_Email g)" "map_of gi (ag_Name g) = None"
      "syncGroup cfg w (ggi, gi, h) g =
         (ggi(ag_Name g \<mapsto> g),
          AList.update (ag_Name g)
            \<lparr>g_GroupId = gid, g_DisplayName = Some (ag_Name g),
             g_Description = Some (ag_Description g)\<rparr> gi,
          h @ [CreateGroup (Some (ag_Name g)) (Some (ag_Description g))])"
proof (cases "ignoreGroup cfg (ag_Email g)")
  case True
  then show ?thesis using ignored by (simp add: syncGroup_def)
next
  case False
  show ?thesis
  proof (cases "map_of gi (ag_Name g)")
    case (Some a)
    with False show ?thesis using exists by (simp add: syncGroup_def)
  next
    case None
    show ?thesis
    proof (cases "api_CreateGroup (w_store w) h (identityStoreId w) (Some (ag_Name g))
                    (Some (ag_Description g))")
      case (Inl e)
      with False None show ?thesis using failed
        by (simp add: syncGroup_def aws_CreateGroup_def)
    next
      case (Inr gid)
      with False None show ?thesis using created[of gid]
        by (simp add: syncGroup_def aws_CreateGroup_def ToString_def)
    qed
  qed
qed

lemma syncGroup_fold_index:
  assumes "foldl (syncGroup cfg w) (ggi, gi, h) gs = (ggi', gi', h')"
  shows "dom ggi' = dom ggi \<union> set (sourceIndexNames cfg gs)"
  using assms
proof (induction gs arbitrary: ggi gi h)
  case Nil
  then show ?case by (simp add: sourceIndexNames_def)
next
  case (Cons g gs)
  show ?case
  proof (cases rule: syncGroup_cases[of cfg g w ggi gi h])
    case ignored
    with Cons.prems have "foldl (syncGroup cfg w) (ggi, gi, h) gs = (ggi', gi', h')" by simp
    from Cons.IH[OF this] ignored(1) show ?thesis by (simp add: sourceIndexNames_def)
  next
    case exists
    with Cons.prems have "foldl (syncGroup cfg w) (ggi(ag_Name g \<mapsto> g), gi, h) gs = (ggi', gi', h')"
      by simp
    from Cons.IH[OF this] exists(1) show ?thesis by (auto simp add: sourceIndexNames_def)
  next
    case failed
    with Cons.prems have "foldl (syncGroup cfg w) (ggi(ag_Name g \<mapsto> g), gi,
        h @ [CreateGroup (Some (ag_Name g)) (Some (ag_Description g))]) gs = (ggi', gi', h')"
      by simp
    from Cons.IH[OF this] failed(1) show ?thesis by (auto simp add: sourceIndexNames_def)
  next
    case (created gid)
    with Cons.prems have "foldl (syncGroup cfg w) (ggi(ag_Name g \<mapsto> g),
         AList.update (ag_Name g)
            \<lparr>g_GroupId = gid, g_DisplayName = Some (ag_Name g),
             g_Description = Some (ag_Description g)\<rparr> gi,
        h @ [CreateGroup (Some (ag_Name g)) (Some (ag_Description g))]) gs = (ggi', gi', h')"
      by simp
    from Cons.IH[OF this] created(1) show ?thesis by (auto simp add: sourceIndexNames_def)
  qed
qed

lemma syncGroup_fold_working:
  assumes "foldl (syncGroup cfg w) (ggi, gi, h) gs = (ggi', gi', h')"
    and "map_of gi' k = Some tg"
  shows "map_of gi k = Some tg \<or> (k = ToString (g_DisplayName tg) \<and> k \<in> dom ggi')"
  using assms
proof (induction gs arbitrary: ggi gi h)
  case Nil
  then show ?case by simp
next
  case (Cons g gs)
  show ?case
  proof (cases rule: syncGroup_cases[of cfg g w ggi gi h])
    case ignored
    with Cons.prems have "foldl (syncGroup cfg w) (ggi, gi, h) gs = (ggi', gi', h')" by simp
    from Cons.IH[OF this Cons.prems(2)] show ?thesis .
  next
    case exists
    with Cons.prems have "foldl (syncGroup cfg w) (ggi(ag_Name g \<mapsto> g), gi, h) gs = (ggi', gi', h')"
      by simp
    from Cons.IH[OF this Cons.prems(2)] show ?thesis .
  next
    case failed
    with Cons.prems have "foldl (syncGroup cfg w) (ggi(ag_Name g \<mapsto> g), gi,
        h @ [CreateGroup (Some (ag_Name g)) (Some (ag_Description g))]) gs = (ggi', gi', h')"
      by simp
    from Cons.IH[OF this Cons.prems(2)] show ?thesis .
  next
    case (created gid)
    let ?new = "\<lparr>g_GroupId = gid, g_DisplayName = Some (ag_Name g),
             g_Description = Some (ag_Description g)\<rparr>"
    from created Cons.prems have f: "foldl (syncGroup cfg w) (ggi(ag_Name g \<mapsto> g),
         AList.update (ag_Name g) ?new gi,
        h @ [CreateGroup (Some (ag_Name g)) (Some (ag_Description g))]) gs = (ggi', gi', h')"
      by simp
    from Cons.IH[OF f Cons.prems(2)]
    have "map_of (AList.update (ag_Name g) ?new gi) k = Some tg \<or>
          (k = ToString (g_DisplayName tg) \<and> k \<in> dom ggi')" .
    moreover have "ag_Name g \<in> dom ggi'"
      using syncGroup_fold_index[OF f] by simp
    ultimately show ?thesis
      by (auto simp: update_conv' ToString_def split: if_splits)
  qed
qed

lemma syncGroup_fold_keys:
  assumes "foldl (syncGroup cfg w) (ggi, gi, h) gs = (ggi', gi', h')"
  shows "fst ` set gi \<subseteq> fst ` set gi'"
  using assms
proof (induction gs arbitrary: ggi gi h)
  case Nil
  then show ?case by simp
next
  case (Cons g gs)
  obtain ggi1 gi1 h1 where step: "syncGroup cfg w (ggi, gi, h) g = (ggi1, gi1, h1)"
    by (cases "syncGroup cfg w (ggi, gi, h) g") auto
  have sub: "fst ` set gi \<subseteq> fst ` set (AList.update k v gi)" for k and v :: Group
    by (simp add: dom_update subset_insertI)
  have "gi1 = gi \<or> (\<exists>k v. gi1 = AList.update k v gi)"
    using step by (cases rule: syncGroup_cases[of cfg g w ggi gi h]) auto
  then have "fst ` set gi \<subseteq> fst ` set gi1"
    by (elim disjE exE) (simp_all add: sub)
  moreover from Cons.prems step have "foldl (syncGroup cfg w) (ggi1, gi1, h1) gs = (ggi', gi', h')"
    by simp
  from Cons.IH[OF this] have "fst ` set gi1 \<subseteq> fst ` set gi'" .
  ultimately show ?case by blast
qed

lemma syncGroup_fold_calls:
  assumes "foldl (syncGroup cfg w) (ggi, gi, h) gs = (ggi', gi', h')"
  shows "\<exists>created. h' = h @ map (\<lambda>g. CreateGroup (Some (ag_Name g)) (Some (ag_Description g))) created \<and>
           (\<forall>g \<in> set created. g \<in> set gs \<and> \<not> ignoreGroup cfg (ag_Email g))"
  using assms
proof (induction gs arbitrary: ggi gi h)
  case Nil
  show ?case by (rule exI[of _ "[]"]) (use Nil in simp)
next
  case (Cons g gs)
  obtain ggi1 gi1 h1 where step: "syncGroup cfg w (ggi, gi, h) g = (ggi1, gi1, h1)"
    by (cases "syncGroup cfg w (ggi, gi, h) g") auto
  with Cons.prems have "foldl (syncGroup cfg w) (ggi1, gi1, h1) gs = (ggi', gi', h')" by simp
  from Cons.IH[OF this] obtain created where
    h': "h' = h1 @ map (\<lambda>g. CreateGroup (Some (ag_Name g)) (Some (ag_Description g))) created"
    and created: "\<forall>g \<in> set created. g \<in> set gs \<and> \<not> ignoreGroup cfg (ag_Email g)" by blast
  have "h1 = h \<or> (h1 = h @ [CreateGroup (Some (ag_Name g)) (Some (ag_Description g))] \<and>
                   \<not> ignoreGroup cfg (ag_Email g))"
    using step by (cases rule: syncGroup_cases[of cfg g w ggi gi h]) auto
  then show ?case
  proof
    assume "h1 = h"
    show ?thesis
      by (rule exI[of _ created]) (use h' created \<open>h1 = h\<close> in auto)
  next
    assume "h1 = h @ [CreateGroup (Some (ag_Name g)) (Some (ag_Description g))] \<and>
                   \<not> ignoreGroup cfg (ag_Email g)"
    then show ?thesis
      by - (rule exI[of _ "g # created"], use h' created in auto)
  qed
qed

lemma markGroup_fold:
  "foldl (markGroup ggi) (del, gi) gs =
     (del @ filter (\<lambda>g. ggi (ToString (g_DisplayName g)) = None) gs,
      filter (\<lambda>p. \<not> (fst p \<in> (\<lambda>g. ToString (g_DisplayName g)) ` set gs \<and> ggi (fst p) = None)) gi)"
proof (induction gs arbitrary: del gi)
  case Nil
  then show ?case by simp
next
  case (Cons g gs)
  show ?case
  proof (cases "ggi (ToString (g_DisplayName g))")
    case None
    then have "markGroup ggi (del, gi) g = (del @ [g], AList.delete (ToString (g_DisplayName g)) gi)"
      by (simp add: markGroup_def)
    with Cons.IH[of "del @ [g]" "AList.delete (ToString (g_DisplayName g)) gi"] None
    show ?thesis
      by (auto simp: AList.delete_eq intro!: filter_cong)
  next
    case (Some sg)
    then have "markGroup ggi (del, gi) g = (del, gi)"
      by (simp add: markGroup_def)
    with Cons.IH[of del gi] Some
    show ?thesis
      by (auto intro!: filter_cong)
  qed
qed

lemma planGroups_Inr:
  assumes "planGroups cfg w query h = (Inr (ggi, del, gi), h3)"
  obtains awsGroups googleGroups gi1 where
    "drain (tgt_GroupsPages (w_target w)) [] = (awsGroups, None)"
    "src_Groups (w_source w) query = Inr googleGroups"
    "foldl (syncGroup cfg w)
       (Map.empty, foldl indexGroup [] awsGroups, h @ [AwsGetGroups, GoogleGetGroups query])
       googleGroups = (ggi, gi1, h3)"
    "foldl (markGroup ggi) ([], gi1) awsGroups = (del, gi)"
  using assms
  by (auto simp: planGroups_def aws_GetGroups_def google_GetGroups_def
      split: prod.splits option.splits sum.splits)

lemma planGroups_run:
  assumes "drain (tgt_GroupsPages (w_target w)) [] = (awsGroups, None)"
    and "src_Groups (w_source w) query = Inr googleGroups"
    and "foldl (syncGroup cfg w)
       (Map.empty, foldl indexGroup [] awsGroups, h @ [AwsGetGroups, GoogleGetGroups query])
       googleGroups = (ggi, gi1, h3)"
  shows "planGroups cfg w query h =
     (Inr (ggi, filter (\<lambda>g. ggi (ToString (g_DisplayName g)) = None) awsGroups,
           filter (\<lambda>p. \<not> (fst p \<in> (\<lambda>g. ToString (g_DisplayName g)) ` set awsGroups \<and>
                           ggi (fst p) = None)) gi1), h3)"
  using assms
  by (simp add: planGroups_def aws_GetGroups_def google_GetGroups_def markGroup_fold)

lemma planGroups_Inl:
  assumes "planGroups cfg w query h = (Inl e, h')"
  shows "h' = h @ [AwsGetGroups] \<or> h' = h @ [AwsGetGroups, GoogleGetGroups query]"
  using assms
  by (auto simp: planGroups_def aws_GetGroups_def google_GetGroups_def Let_def
      split: prod.splits option.splits sum.splits)

lemma SyncGroups_calls:
  assumes "SyncGroups cfg w query usr h = (r, h')"
  shows "\<exists>t. h' = h @ t \<and> (\<forall>c \<in> set t. groupCall cfg (sourceGroups w query) c)"
proof -
  obtain p h3 where plan: "planGroups cfg w query h = (p, h3)"
    by (cases "planGroups cfg w query h")
  show ?thesis
  proof (cases p)
    case (Inl e)
    with plan assms have "h' = h3" by (simp add: SyncGroups_def)
    with planGroups_Inl[of cfg w query h e h3] plan Inl
    consider "h' = h @ [AwsGetGroups]" | "h' = h @ [AwsGetGroups, GoogleGetGroups query]" by blast
    then show ?thesis
    proof cases
      case 1
      show ?thesis by (rule exI[of _ "[AwsGetGroups]"]) (simp add: 1)
    next
      case 2
      show ?thesis by (rule exI[of _ "[AwsGetGroups, GoogleGetGroups query]"]) (simp add: 2)
    qed
  next
    case (Inr res)
    obtain ggi del gi where res: "res = (ggi, del, gi)" by (cases res)
    from plan Inr res obtain awsGroups googleGroups gi1 where
      src: "src_Groups (w_source w) query = Inr googleGroups"
      and loop: "foldl (syncGroup cfg w)
         (Map.empty, foldl indexGroup [] awsGroups, h @ [AwsGetGroups, GoogleGetGroups query])
         googleGroups = (ggi, gi1, h3)"
      by (auto elim: planGroups_Inr)
    from syncGroup_fold_calls[OF loop] obtain created where
      h3: "h3 = (h @ [AwsGetGroups, GoogleGetGroups query]) @
            map (\<lambda>g. CreateGroup (Some (ag_Name g)) (Some (ag_Description g))) created"
      and created: "\<forall>g \<in> set created. g \<in> set googleGroups \<and> \<not> ignoreGroup cfg (ag_Email g)"
      by blast
    let ?t3 = "[AwsGetGroups, GoogleGetGroups query] @
            map (\<lambda>g. CreateGroup (Some (ag_Name g)) (Some (ag_Description g))) created"
    have t3: "h3 = h @ ?t3" "\<forall>c \<in> set ?t3. groupCall cfg (sourceGroups w query) c"
      using h3 created src by (auto simp: sourceGroups_def)
    obtain r4 h4 where mem: "syncMemberships w ggi usr (range_values (mapOrder w h3) gi) h3 = (r4, h4)"
      by (cases "syncMemberships w ggi usr (range_values (mapOrder w h3) gi) h3")
    from syncMemberships_calls[OF mem, of cfg "sourceGroups w query"] obtain t4 where
      t4: "h4 = h3 @ t4" "\<forall>c \<in> set t4. groupCall cfg (sourceGroups w query) c" by blast
    show ?thesis
    proof (cases "r4 = Done")
      case True
      with assms plan Inr res mem have "deleteGroups w del h4 = (r, h')"
        by (simp add: SyncGroups_def)
      from deleteGroups_trace[OF this] obtain n where "h' = h4 @ map DeleteGroup (take n del)"
        by blast
      with t3(1) t4(1) have "h' = h @ (?t3 @ t4 @ map DeleteGroup (take n del))" by simp
      moreover have "\<forall>c \<in> set (?t3 @ t4 @ map DeleteGroup (take n del)).
          groupCall cfg (sourceGroups w query) c"
        using t3(2) t4(2) by auto
      ultimately show ?thesis by blast
    next
      case False
      with assms plan Inr res mem have "h' = h4" by (cases r4) (simp_all add: SyncGroups_def)
      with t3(1) t4(1) have "h' = h @ (?t3 @ t4)" by simp
      moreover have "\<forall>c \<in> set (?t3 @ t4). groupCall cfg (sourceGroups w query) c"
        using t3(2) t4(2) by auto
      ultimately show ?thesis by blast
    qed
  qed
qed

lemma syncGroup_fold_quiet:
  assumes "foldl (syncGroup cfg w) (ggi, gi, h) gs = (ggi', gi', h)"
  shows "foldl (syncGroup cfg w2) (ggi, gi, g) gs = (ggi', gi', g)"
  using assms
proof (induction gs arbitrary: ggi gi)
  case Nil
  then show ?case by simp
next
  case (Cons a gs)
  obtain ggi1 gi1 h1 where step: "syncGroup cfg w (ggi, gi, h) a = (ggi1, gi1, h1)"
    by (cases "syncGroup cfg w (ggi, gi, h) a") auto
  with Cons.prems have rest: "foldl (syncGroup cfg w) (ggi1, gi1, h1) gs = (ggi', gi', h)" by simp
  from syncGroup_fold_calls[OF rest] obtain created :: "admin_Group list" where
    "h = h1 @ map (\<lambda>g. CreateGroup (Some (ag_Name g)) (Some (ag_Description g))) created"
    by blast
  moreover have "h1 = h \<or> h1 = h @ [CreateGroup (Some (ag_Name a)) (Some (ag_Description a))]"
    using step by (cases rule: syncGroup_cases[of cfg a w ggi gi h]) auto
  ultimately have h1: "h1 = h" by auto
  have "syncGroup cfg w2 (ggi, gi, g) a = (ggi1, gi1, g)"
    using step h1
    by (cases rule: syncGroup_cases[of cfg a w ggi gi h];
        cases rule: syncGroup_cases[of cfg a w2 ggi gi g]) auto
  with Cons.IH[of ggi1 gi1] rest h1 show ?case by simp
qed

lemma SyncGroups_Done:
  assumes "SyncGroups cfg w query usr h = (Done, h')"
  obtains ggi del gi h3 h4 where
    "planGroups cfg w query h = (Inr (ggi, del, gi), h3)"
    "syncMemberships w ggi usr (range_values (mapOrder w h3) gi) h3 = (Done, h4)"
    "deleteGroups w del h4 = (Done, h')"
proof -
  obtain p h3 where plan: "planGroups cfg w query h = (p, h3)"
    by (cases "planGroups cfg w query h")
  show ?thesis
  proof (cases p)
    case (Inl e)
    with plan assms show ?thesis by (simp add: SyncGroups_def)
  next
    case (Inr res)
    obtain ggi del gi where res: "res = (ggi, del, gi)" by (cases res)
    obtain r4 h4 where mem: "syncMemberships w ggi usr (range_values (mapOrder w h3) gi) h3 = (r4, h4)"
      by (cases "syncMemberships w ggi usr (range_values (mapOrder w h3) gi) h3")
    show ?thesis
    proof (cases "r4 = Done")
      case True
      with assms plan Inr res mem have "deleteGroups w del h4 = (Done, h')"
        by (simp add: SyncGroups_def)
      with plan Inr res mem True that show ?thesis by blast
    next
      case False
      with assms plan Inr res mem show ?thesis by (cases r4) (simp_all add: SyncGroups_def)
    qed
  qed
qed

lemma planGroups_quiet:
  assumes plan: "planGroups cfg w query h = (Inr res, h @ t)"
    and quiet: "\<forall>c \<in> set t. \<not> isMutation c"
    and same: "w_source w2 = w_source w" "w_target w2 = w_target w"
  shows "planGroups cfg w2 query g = (Inr res, g @ [AwsGetGroups, GoogleGetGroups query])"
proof -
  let ?L = "[AwsGetGroups, GoogleGetGroups query]"
  obtain ggi del gi where res: "res = (ggi, del, gi)" by (cases res)
  from plan[unfolded res] obtain awsGroups googleGroups gi1 where
    tgt: "drain (tgt_GroupsPages (w_target w)) [] = (awsGroups, None)"
    and src: "src_Groups (w_source w) query = Inr googleGroups"
    and loop: "foldl (syncGroup cfg w) (Map.empty, foldl indexGroup [] awsGroups, h @ ?L)
                 googleGroups = (ggi, gi1, h @ t)"
    by (rule planGroups_Inr)
  from syncGroup_fold_calls[OF loop] obtain created :: "admin_Group list" where
    "h @ t = (h @ ?L) @ map (\<lambda>g. CreateGroup (Some (ag_Name g)) (Some (ag_Description g))) created"
    by blast
  then have t: "t = ?L @ map (\<lambda>g. CreateGroup (Some (ag_Name g)) (Some (ag_Description g))) created"
    by simp
  with quiet have "\<forall>c \<in> set (map (\<lambda>g. CreateGroup (Some (ag_Name g)) (Some (ag_Description g)))
        created). \<not> isMutation c"
    by (simp add: quiet_append)
  then have "created = []" by (rule quiet_map_CreateGroup)
  with t loop have loop1: "foldl (syncGroup cfg w) (Map.empty, foldl indexGroup [] awsGroups, h @ ?L)
                 googleGroups = (ggi, gi1, h @ ?L)" by simp
  from syncGroup_fold_quiet[OF this, of w2 "g @ ?L"]
  have loop2: "foldl (syncGroup cfg w2) (Map.empty, foldl indexGroup [] awsGroups, g @ ?L)
                 googleGroups = (ggi, gi1, g @ ?L)" .
  have tgt2: "drain (tgt_GroupsPages (w_target w2)) [] = (awsGroups, None)"
    and src2: "src_Groups (w_source w2) query = Inr googleGroups"
    by (simp_all add: same tgt src)
  from planGroups_run[OF tgt src loop1] plan t \<open>created = []\<close>
  have "res = (ggi, filter (\<lambda>g. ggi (ToString (g_DisplayName g)) = None) awsGroups,
           filter (\<lambda>p. \<not> (fst p \<in> (\<lambda>g. ToString (g_DisplayName g)) ` set awsGroups \<and>
                           ggi (fst p) = None)) gi1)" by simp
  with planGroups_run[OF tgt2 src2 loop2] show ?thesis by simp
qed

lemma SyncGroups_quiet:
  assumes run: "SyncGroups cfg w query usr h = (Done, h @ t)"
    and quiet: "\<forall>c \<in> set t. \<not> isMutation c"
    and order: "\<forall>h ks. set ks \<subseteq> set (mapOrder w h ks)"
    and same: "w_source w2 = w_source w" "w_target w2 = w_target w"
  shows "\<exists>t'. SyncGroups cfg w2 query usr g = (Done, g @ t') \<and> (\<forall>c \<in> set t'. \<not> isMutation c)"
proof -
  let ?L = "[AwsGetGroups, GoogleGetGroups query]"
  from run obtain ggi del gi h3 h4 where
    plan: "planGroups cfg w query h = (Inr (ggi, del, gi), h3)"
    and mem: "syncMemberships w ggi usr (range_values (mapOrder w h3) gi) h3 = (Done, h4)"
    and dg: "deleteGroups w del h4 = (Done, h @ t)"
    by (rule SyncGroups_Done)
  from plan obtain awsGroups googleGroups gi1 where
    "foldl (syncGroup cfg w) (Map.empty, foldl indexGroup [] awsGroups, h @ ?L)
                 googleGroups = (ggi, gi1, h3)"
    by (rule planGroups_Inr)
  from syncGroup_fold_calls[OF this] obtain t3 where t3: "h3 = h @ t3" by auto
  from syncMemberships_calls[OF mem, of cfg0 "[]"] obtain t4 where t4: "h4 = h3 @ t4" by blast
  from deleteGroups_trace[OF dg] have "h @ t = h4 @ map DeleteGroup del" by auto
  with t3 t4 have t: "t = t3 @ t4 @ map DeleteGroup del" by simp
  with quiet have q3: "\<forall>c \<in> set t3. \<not> isMutation c" and q4: "\<forall>c \<in> set t4. \<not> isMutation c"
    and qd: "\<forall>c \<in> set (map DeleteGroup del). \<not> isMutation c"
    by (simp_all add: quiet_append)
  from qd have del: "del = []" by (rule quiet_map_DeleteGroup)
  from plan t3 have "planGroups cfg w query h = (Inr (ggi, del, gi), h @ t3)" by simp
  from planGroups_quiet[OF this q3 same, of g]
  have plan2: "planGroups cfg w2 query g = (Inr (ggi, del, gi), g @ ?L)" .
  from mem t4 have "syncMemberships w ggi usr (range_values (mapOrder w h3) gi) h3 = (Done, h3 @ t4)"
    by simp
  from syncMemberships_after_quiet[OF this q4 order]
  have all: "\<forall>x \<in> set (range_values (mapOrder w h3) gi).
      nothingToDo (w_source w) (w_target w) usr (ggi (ToString (g_DisplayName x))) x" .
  from order have "set (map fst gi) \<subseteq> set (mapOrder w h3 (map fst gi))" by blast
  from range_values_covers[of gi "mapOrder w h3" "mapOrder w2 (g @ ?L)", OF this] all
  have "\<forall>x \<in> set (range_values (mapOrder w2 (g @ ?L)) gi).
      nothingToDo (w_source w2) (w_target w2) usr (ggi (ToString (g_DisplayName x))) x"
    unfolding same by blast
  from syncMemberships_nothing_to_do[OF this, of "g @ ?L"] obtain t' where
    mem2: "syncMemberships w2 ggi usr (range_values (mapOrder w2 (g @ ?L)) gi) (g @ ?L) =
             (Done, (g @ ?L) @ t')"
    and q': "\<forall>c \<in> set t'. \<not> isMutation c" by blast
  have "SyncGroups cfg w2 query usr g = (Done, g @ (?L @ t'))"
    using plan2 mem2 del by (simp add: SyncGroups_def)
  moreover have "\<forall>c \<in> set (?L @ t'). \<not> isMutation c" using q' by simp
  ultimately show ?thesis by blast
qed

lemma syncGroup_fold_source:
  assumes "foldl (syncGroup cfg w) (ggi, gi, h) gs = (ggi', gi', h')"
    and "ggi' n = Some g"
  shows "ggi n = Some g \<or> (g \<in> set gs \<and> ag_Name g = n \<and> \<not> ignoreGroup cfg (ag_Email g))"
  using assms
proof (induction gs arbitrary: ggi gi h)
  case Nil
  then show ?case by simp
next
  case (Cons a gs)
  obtain ggi1 gi1 h1 where step: "syncGroup cfg w (ggi, gi, h) a = (ggi1, gi1, h1)"
    by (cases "syncGroup cfg w (ggi, gi, h) a") auto
  with Cons.prems have "foldl (syncGroup cfg w) (ggi1, gi1, h1) gs = (ggi', gi', h')" by simp
  from Cons.IH[OF this Cons.prems(2)]
  have rest: "ggi1 n = Some g \<or> (g \<in> set gs \<and> ag_Name g = n \<and> \<not> ignoreGroup cfg (ag_Email g))" .
  have "ggi1 = ggi \<or> (ggi1 = ggi(ag_Name a \<mapsto> a) \<and> \<not> ignoreGroup cfg (ag_Email a))"
    using step by (cases rule: syncGroup_cases[of cfg a w ggi gi h]) auto
  with rest show ?case by (auto split: if_splits)
qed

lemma syncGroup_fold_keep:
  assumes "foldl (syncGroup cfg w) (ggi, gi, h) gs = (ggi', gi', h')"
    and "map_of gi k = Some t"
  shows "map_of gi' k = Some t"
  using assms
proof (induction gs arbitrary: ggi gi h)
  case Nil
  then show ?case by simp
next
  case (Cons a gs)
  obtain ggi1 gi1 h1 where step: "syncGroup cfg w (ggi, gi, h) a = (ggi1, gi1, h1)"
    by (cases "syncGroup cfg w (ggi, gi, h) a") auto
  with Cons.prems have rest: "foldl (syncGroup cfg w) (ggi1, gi1, h1) gs = (ggi', gi', h')" by simp
  have "map_of gi1 k = Some t"
    using step Cons.prems(2)
    by (cases rule: syncGroup_cases[of cfg a w ggi gi h]) (auto simp: update_conv')
  from Cons.IH[OF rest this] show ?case .
qed

text \<open>One step of the loop over the source groups, by the store's reply.\<close>

lemma syncGroup_create:
  assumes "\<not> ignoreGroup cfg (ag_Email g)" and "map_of gi (ag_Name g) = None"
  shows "syncGroup cfg w (ggi, gi, h) g =
     (ggi(ag_Name g \<mapsto> g),
      (case api_CreateGroup (w_store w) h (identityStoreId w) (Some (ag_Name g))
              (Some (ag_Description g)) of
         Inl err \<Rightarrow> gi
       | Inr gid \<Rightarrow>
           AList.update (ag_Name g)
             \<lparr>g_GroupId = gid, g_DisplayName = Some (ag_Name g),
              g_Description = Some (ag_Description g)\<rparr> gi),
      h @ [CreateGroup (Some (ag_Name g)) (Some (ag_Description g))])"
  using assms by (simp add: syncGroup_def aws_CreateGroup_def ToString_def split: sum.splits)

lemma syncGroup_fold_created:
  assumes "foldl (syncGroup cfg w) (ggi, gi, h) gs = (ggi', gi', h')"
  shows "\<exists>created.
           h' = h @ map (\<lambda>g. CreateGroup (Some (ag_Name g)) (Some (ag_Description g))) created \<and>
           (\<forall>g \<in> set created. g \<in> set gs \<and> \<not> ignoreGroup cfg (ag_Email g)) \<and>
           ag_Name ` set created = set (sourceIndexNames cfg gs) - fst ` set gi \<and>
           (\<forall>i < length created. \<forall>gid.
              api_CreateGroup (w_store w)
                (h @ map (\<lambda>g. CreateGroup (Some (ag_Name g)) (Some (ag_Description g)))
                       (take i created))
                (identityStoreId w) (Some (ag_Name (created ! i)))
                (Some (ag_Description (created ! i))) = Inr gid \<longrightarrow>
              map_of gi' (ag_Name (created ! i)) =
                Some \<lparr>g_GroupId = gid, g_DisplayName = Some (ag_Name (created ! i)),
                      g_Description = Some (ag_Description (created ! i))\<rparr>)"
  using assms
proof (induction gs arbitrary: ggi gi h)
  case Nil
  show ?case by (rule exI[of _ "[]"]) (use Nil in \<open>simp add: sourceIndexNames_def\<close>)
next
  case (Cons g gs)
  let ?C = "\<lambda>g. CreateGroup (Some (ag_Name g)) (Some (ag_Description g))"
  obtain ggi1 gi1 h1 where step: "syncGroup cfg w (ggi, gi, h) g = (ggi1, gi1, h1)"
    by (cases "syncGroup cfg w (ggi, gi, h) g") auto
  with Cons.prems have rest: "foldl (syncGroup cfg w) (ggi1, gi1, h1) gs = (ggi', gi', h')" by simp
  from Cons.IH[OF rest] obtain created where
    h': "h' = h1 @ map ?C created"
    and created: "\<forall>g \<in> set created. g \<in> set gs \<and> \<not> ignoreGroup cfg (ag_Email g)"
    and names: "ag_Name ` set created = set (sourceIndexNames cfg gs) - fst ` set gi1"
    and filed: "\<forall>i < length created. \<forall>gid.
              api_CreateGroup (w_store w) (h1 @ map ?C (take i created))
                (identityStoreId w) (Some (ag_Name (created ! i)))
                (Some (ag_Description (created ! i))) = Inr gid \<longrightarrow>
              map_of gi' (ag_Name (created ! i)) =
                Some \<lparr>g_GroupId = gid, g_DisplayName = Some (ag_Name (created ! i)),
                      g_Description = Some (ag_Description (created ! i))\<rparr>"
    by blast
  consider
      (quiet) "h1 = h" "gi1 = gi"
        "ignoreGroup cfg (ag_Email g) \<or> ag_Name g \<in> fst ` set gi"
    | (request) "\<not> ignoreGroup cfg (ag_Email g)" "map_of gi (ag_Name g) = None"
  proof (cases rule: syncGroup_cases[of cfg g w ggi gi h])
    case ignored
    with step quiet show ?thesis by simp
  next
    case exists
    from exists(2) have "ag_Name g \<in> fst ` set gi" by (simp add: map_of_eq_None_iff)
    with exists step quiet show ?thesis by simp
  next
    case failed
    with request show ?thesis by simp
  next
    case (created gid)
    with request show ?thesis by simp
  qed
  then show ?case
  proof cases
    case quiet
    have "set (sourceIndexNames cfg (g # gs)) - fst ` set gi =
          set (sourceIndexNames cfg gs) - fst ` set gi"
      using quiet(3) by (auto simp: sourceIndexNames_def)
    with names quiet have names': "ag_Name ` set created = set (sourceIndexNames cfg (g # gs)) - fst ` set gi"
      by simp
    show ?thesis
      apply (rule exI[of _ created])
      using h' created names' filed quiet(1) by auto
  next
    case request
    note st = syncGroup_create[OF request, of w ggi h]
    from st step have h1: "h1 = h @ [?C g]" by simp
    from request(2) have notin: "ag_Name g \<notin> fst ` set gi" by (simp add: map_of_eq_None_iff)
    have keys1: "fst ` set gi1 = fst ` set gi \<or> fst ` set gi1 = insert (ag_Name g) (fst ` set gi)"
      using st step
      by (cases "api_CreateGroup (w_store w) h (identityStoreId w) (Some (ag_Name g))
              (Some (ag_Description g))") (auto simp: dom_update)
    have names': "ag_Name ` set (g # created) = set (sourceIndexNames cfg (g # gs)) - fst ` set gi"
      using keys1 names notin request(1) by (auto simp: sourceIndexNames_def)
    have first: "map_of gi' (ag_Name g) =
                Some \<lparr>g_GroupId = gid, g_DisplayName = Some (ag_Name g),
                      g_Description = Some (ag_Description g)\<rparr>"
      if "api_CreateGroup (w_store w) h (identityStoreId w) (Some (ag_Name g))
              (Some (ag_Description g)) = Inr gid" for gid
    proof -
      from st step that have "map_of gi1 (ag_Name g) =
           Some \<lparr>g_GroupId = gid, g_DisplayName = Some (ag_Name g),
                      g_Description = Some (ag_Description g)\<rparr>"
        by (auto simp: update_conv')
      from syncGroup_fold_keep[OF rest this] show ?thesis .
    qed
    have filed': "\<forall>i < length (g # created). \<forall>gid.
              api_CreateGroup (w_store w) (h @ map ?C (take i (g # created)))
                (identityStoreId w) (Some (ag_Name ((g # created) ! i)))
                (Some (ag_Description ((g # created) ! i))) = Inr gid \<longrightarrow>
              map_of gi' (ag_Name ((g # created) ! i)) =
                Some \<lparr>g_GroupId = gid, g_DisplayName = Some (ag_Name ((g # created) ! i)),
                      g_Description = Some (ag_Description ((g # created) ! i))\<rparr>"
    proof (intro allI impI)
      fix i gid
      assume i: "i < length (g # created)"
        and reply: "api_CreateGroup (w_store w) (h @ map ?C (take i (g # created)))
                (identityStoreId w) (Some (ag_Name ((g # created) ! i)))
                (Some (ag_Description ((g # created) ! i))) = Inr gid"
      show "map_of gi' (ag_Name ((g # created) ! i)) =
                Some \<lparr>g_GroupId = gid, g_DisplayName = Some (ag_Name ((g # created) ! i)),
                      g_Description = Some (ag_Description ((g # created) ! i))\<rparr>"
      proof (cases i)
        case 0
        with reply first[of gid] show ?thesis by simp
      next
        case (Suc j)
        with i have j: "j < length created" by simp
        from reply Suc h1 have "api_CreateGroup (w_store w) (h1 @ map ?C (take j created))
                (identityStoreId w) (Some (ag_Name (created ! j)))
                (Some (ag_Description (created ! j))) = Inr gid" by simp
        with filed j have "map_of gi' (ag_Name (created ! j)) =
                Some \<lparr>g_GroupId = gid, g_DisplayName = Some (ag_Name (created ! j)),
                      g_Description = Some (ag_Description (created ! j))\<rparr>" by blast
        with Suc show ?thesis by simp
      qed
    qed
    have h'': "h' = h @ map ?C (g # created)" using h' h1 by simp
    have created': "\<forall>x \<in> set (g # created). x \<in> set (g # gs) \<and> \<not> ignoreGroup cfg (ag_Email x)"
      using created request(1) by auto
    show ?thesis
      apply (rule exI[of _ "g # created"])
      using h'' created' names' filed' by blast
  qed
qed

lemma SyncMembershipsForGroup_no_group_mutation:
  assumes "SyncMembershipsForGroup w googleGroup awsGroup usr h = (r, h')"
  shows "\<exists>t. h' = h @ t \<and> (\<forall>c \<in> set t. (\<forall>n d. c \<noteq> CreateGroup n d) \<and> (\<forall>g. c \<noteq> DeleteGroup g))"
proof -
  from SyncMembershipsForGroup_phases[OF assms] obtain ls rs us where
    h': "h' = h @ ls @ map RemoveGroupMembership rs @ map (\<lambda>u. AddUserToGroup u awsGroup) us"
    and ls: "\<forall>c \<in> set ls. (\<exists>g. c = GoogleGetGroupMembers g) \<or> (\<exists>g. c = AwsGetGroupMembers g)"
    by blast
  show ?thesis
    by (rule exI[of _ "ls @ map RemoveGroupMembership rs @ map (\<lambda>u. AddUserToGroup u awsGroup) us"])
       (use h' ls in auto)
qed

lemma syncMemberships_no_group_mutation:
  assumes "syncMemberships w ggi usr gl h = (r, h')"
  shows "\<exists>t. h' = h @ t \<and> (\<forall>c \<in> set t. (\<forall>n d. c \<noteq> CreateGroup n d) \<and> (\<forall>g. c \<noteq> DeleteGroup g))"
  using assms
proof (induction gl arbitrary: h)
  case Nil
  show ?case by (rule exI[of _ "[]"]) (use Nil in simp)
next
  case (Cons g gl)
  obtain r1 h1 where one: "SyncMembershipsForGroup w (ggi (ToString (g_DisplayName g))) g usr h = (r1, h1)"
    by (cases "SyncMembershipsForGroup w (ggi (ToString (g_DisplayName g))) g usr h")
  from SyncMembershipsForGroup_no_group_mutation[OF one] obtain t1 where
    t1: "h1 = h @ t1" "\<forall>c \<in> set t1. (\<forall>n d. c \<noteq> CreateGroup n d) \<and> (\<forall>g. c \<noteq> DeleteGroup g)"
    by blast
  show ?case
  proof (cases "r1 = Done")
    case True
    with Cons.prems one have "syncMemberships w ggi usr gl h1 = (r, h')" by simp
    from Cons.IH[OF this] obtain t2 where
      t2: "h' = h1 @ t2" "\<forall>c \<in> set t2. (\<forall>n d. c \<noteq> CreateGroup n d) \<and> (\<forall>g. c \<noteq> DeleteGroup g)"
      by blast
    show ?thesis by (rule exI[of _ "t1 @ t2"]) (use t1 t2 in auto)
  next
    case False
    with Cons.prems one have "h' = h1" by (cases r1) simp_all
    then show ?thesis by - (rule exI[of _ t1], use t1 in auto)
  qed
qed

text \<open>What \<open>SyncGroups\<close> requests after its third loop.\<close>

lemma SyncGroups_after_plan:
  assumes plan: "planGroups cfg w query h = (Inr (ggi, del, gi), h3)"
  shows "\<exists>rest n. SyncGroups cfg w query usr h = (fst (SyncGroups cfg w query usr h), h3 @ rest @ map DeleteGroup (take n del)) \<and>
           (\<forall>c \<in> set rest. (\<forall>n d. c \<noteq> CreateGroup n d) \<and> (\<forall>g. c \<noteq> DeleteGroup g)) \<and>
           (fst (SyncGroups cfg w query usr h) = Done \<longrightarrow> n = length del)"
proof -
  obtain r4 h4 where mem: "syncMemberships w ggi usr (range_values (mapOrder w h3) gi) h3 = (r4, h4)"
    by (cases "syncMemberships w ggi usr (range_values (mapOrder w h3) gi) h3")
  from syncMemberships_no_group_mutation[OF mem] obtain t4 where
    t4: "h4 = h3 @ t4" "\<forall>c \<in> set t4. (\<forall>n d. c \<noteq> CreateGroup n d) \<and> (\<forall>g. c \<noteq> DeleteGroup g)"
    by blast
  show ?thesis
  proof (cases "r4 = Done")
    case True
    obtain r h' where dg: "deleteGroups w del h4 = (r, h')" by (cases "deleteGroups w del h4")
    with plan mem True have run: "SyncGroups cfg w query usr h = (r, h')"
      by (simp add: SyncGroups_def)
    from deleteGroups_trace[OF dg] obtain n where
      n: "h' = h4 @ map DeleteGroup (take n del)" "r = Done \<longrightarrow> n = length del" by blast
    show ?thesis
      apply (rule exI[of _ t4], rule exI[of _ n])
      using run n t4 by simp
  next
    case False
    with plan mem have run: "SyncGroups cfg w query usr h = (r4, h4)"
      by (cases r4) (simp_all add: SyncGroups_def)
    show ?thesis
      apply (rule exI[of _ t4], rule exI[of _ 0])
      using run t4 False by simp
  qed
qed

text \<open>
  C4, as amended. \<open>SyncGroups\<close> never hands an absent source group to membership
  reconciliation: every group left in the working index after the third loop has an entry
  in the source-group index under its display name, since target groups without one were
  removed from the working index and created groups are filed in both. Membership
  reconciliation itself does not tolerate a nil source group: it panics at its first
  statement, before any listing or mutation.
\<close>

theorem reconciled_groups_have_source:
  "(planGroups cfg w query h = (Inr (googleGroupsIndex, groupsToDelete, groupsIndex), h3) \<longrightarrow>
      (\<forall>g \<in> set (range_values (mapOrder w h3) groupsIndex).
          googleGroupsIndex (ToString (g_DisplayName g)) \<noteq> None)) \<and>
   SyncMembershipsForGroup w None awsGroup usr h = (Panicked, h)"
proof (intro conjI impI ballI)
  show "SyncMembershipsForGroup w None awsGroup usr h = (Panicked, h)"
    by (simp add: SyncMembershipsForGroup_def)
next
  fix g
  assume plan: "planGroups cfg w query h = (Inr (googleGroupsIndex, groupsToDelete, groupsIndex), h3)"
    and g: "g \<in> set (range_values (mapOrder w h3) groupsIndex)"
  from plan obtain awsGroups googleGroups gi1 where
    loop2: "foldl (syncGroup cfg w)
       (Map.empty, foldl indexGroup [] awsGroups, h @ [AwsGetGroups, GoogleGetGroups query])
       googleGroups = (googleGroupsIndex, gi1, h3)"
    and loop3: "foldl (markGroup googleGroupsIndex) ([], gi1) awsGroups = (groupsToDelete, groupsIndex)"
    by (rule planGroups_Inr)
  from g obtain k where k: "map_of groupsIndex k = Some g"
    by (auto simp: set_range_values)
  from loop3 have gi: "groupsIndex =
      filter (\<lambda>p. \<not> (fst p \<in> (\<lambda>g. ToString (g_DisplayName g)) ` set awsGroups \<and>
                      googleGroupsIndex (fst p) = None)) gi1"
    by (simp add: markGroup_fold)
  have "map_of groupsIndex k =
      (if \<not> (k \<in> (\<lambda>g. ToString (g_DisplayName g)) ` set awsGroups \<and>
                      googleGroupsIndex k = None) then map_of gi1 k else None)"
    unfolding gi
    by (rule map_of_filter_key[of "\<lambda>k. \<not> (k \<in> (\<lambda>g. ToString (g_DisplayName g)) ` set awsGroups \<and>
                      googleGroupsIndex k = None)"])
  with k have kept: "\<not> (k \<in> (\<lambda>g. ToString (g_DisplayName g)) ` set awsGroups \<and>
                      googleGroupsIndex k = None)"
    and k1: "map_of gi1 k = Some g"
    by (auto split: if_splits)
  from syncGroup_fold_working[OF loop2 k1]
  consider "map_of (foldl indexGroup [] awsGroups) k = Some g"
    | "k = ToString (g_DisplayName g)" "k \<in> dom googleGroupsIndex" by blast
  then show "googleGroupsIndex (ToString (g_DisplayName g)) \<noteq> None"
  proof cases
    case 1
    from indexGroup_fold[OF 1] have "g \<in> set awsGroups" "k = ToString (g_DisplayName g)"
      by auto
    with kept show ?thesis by auto
  next
    case 2
    then show ?thesis by auto
  qed
qed

theorem reconciled_groups_have_source_witness:
  "planGroups cfg0 (membersWorld []) [] [] =
     (Inr (Map.empty(''Eng'' \<mapsto> engSource), [], [(''Eng'', engTarget)]),
      [AwsGetGroups, GoogleGetGroups []]) \<and>
   engTarget \<in> set (range_values (mapOrder (membersWorld []) [AwsGetGroups, GoogleGetGroups []])
                      [(''Eng'', engTarget)]) \<and>
   (Map.empty(''Eng'' \<mapsto> engSource)) (ToString (g_DisplayName engTarget)) \<noteq> None"
proof -
  have plan: "planGroups cfg0 (membersWorld []) [] [] =
     (Inr (Map.empty(''Eng'' \<mapsto> engSource), [], [(''Eng'', engTarget)]),
      [AwsGetGroups, GoogleGetGroups []])"
    by (simp add: sync_defs adapter_defs world_defs)
  have mem: "engTarget \<in> set (range_values (mapOrder (membersWorld [])
                 [AwsGetGroups, GoogleGetGroups []]) [(''Eng'', engTarget)])"
    by (simp add: sync_defs adapter_defs world_defs)
  from reconciled_groups_have_source[of cfg0 "membersWorld []" "[]" "[]", THEN conjunct1,
      rule_format, OF plan mem]
  show ?thesis using plan mem by blast
qed

text \<open>
  C4 as stated fails: with a nil source group and a target membership to remove, the
  reconciliation panics and removes nothing.
\<close>

theorem nil_source_group_counterexample:
  "SyncMembershipsForGroup (membersWorld [staleMembership]) None engTarget bobIndexed [] =
     (Panicked, [])"
  by (simp add: SyncMembershipsForGroup_def)

text \<open>
  C3, as amended. When both group listings succeed, the groups marked for deletion are
  exactly the target groups whose display name has no entry in the source-group index,
  and that index holds only the source groups that passed the ignore-list filter; a
  target group is missing from the working index afterwards exactly when it was marked.
\<close>

theorem deletion_set_follows_filtered_index:
  assumes "drain (tgt_GroupsPages (w_target w)) [] = (awsGroups, None)"
    and "src_Groups (w_source w) query = Inr googleGroups"
  shows "\<exists>googleGroupsIndex groupsIndex h3.
      planGroups cfg w query h =
        (Inr (googleGroupsIndex,
              filter (\<lambda>g. ToString (g_DisplayName g) \<notin> set (sourceIndexNames cfg googleGroups))
                awsGroups,
              groupsIndex), h3) \<and>
      dom googleGroupsIndex = set (sourceIndexNames cfg googleGroups) \<and>
      (\<forall>g \<in> set awsGroups.
          map_of groupsIndex (ToString (g_DisplayName g)) = None \<longleftrightarrow>
          ToString (g_DisplayName g) \<notin> set (sourceIndexNames cfg googleGroups))"
proof -
  obtain ggi gi1 h3 where loop2: "foldl (syncGroup cfg w)
       (Map.empty, foldl indexGroup [] awsGroups, h @ [AwsGetGroups, GoogleGetGroups query])
       googleGroups = (ggi, gi1, h3)"
    by (cases "foldl (syncGroup cfg w)
       (Map.empty, foldl indexGroup [] awsGroups, h @ [AwsGetGroups, GoogleGetGroups query])
       googleGroups") auto
  let ?gi = "filter (\<lambda>p. \<not> (fst p \<in> (\<lambda>g. ToString (g_DisplayName g)) ` set awsGroups \<and>
                           ggi (fst p) = None)) gi1"
  have dom: "dom ggi = set (sourceIndexNames cfg googleGroups)"
    using syncGroup_fold_index[OF loop2] by simp
  then have none: "ggi k = None \<longleftrightarrow> k \<notin> set (sourceIndexNames cfg googleGroups)" for k
    by (metis domIff)
  have plan: "planGroups cfg w query h =
        (Inr (ggi,
              filter (\<lambda>g. ToString (g_DisplayName g) \<notin> set (sourceIndexNames cfg googleGroups))
                awsGroups,
              ?gi), h3)"
    using planGroups_run[OF assms loop2] by (simp add: none)
  have working: "map_of ?gi (ToString (g_DisplayName g)) = None \<longleftrightarrow>
          ToString (g_DisplayName g) \<notin> set (sourceIndexNames cfg googleGroups)"
    if "g \<in> set awsGroups" for g
  proof -
    from that have "ToString (g_DisplayName g) \<in> fst ` set (foldl indexGroup [] awsGroups)"
      by (simp add: indexGroup_fold_keys)
    with syncGroup_fold_keys[OF loop2] have "ToString (g_DisplayName g) \<in> fst ` set gi1"
      by blast
    then have "map_of gi1 (ToString (g_DisplayName g)) \<noteq> None"
      by (simp add: map_of_eq_None_iff)
    moreover have "map_of ?gi (ToString (g_DisplayName g)) =
      (if \<not> (ToString (g_DisplayName g) \<in> (\<lambda>g. ToString (g_DisplayName g)) ` set awsGroups \<and>
                ggi (ToString (g_DisplayName g)) = None)
       then map_of gi1 (ToString (g_DisplayName g)) else None)"
      by (rule map_of_filter_key[of "\<lambda>k. \<not> (k \<in> (\<lambda>g. ToString (g_DisplayName g)) ` set awsGroups \<and>
                      ggi k = None)"])
    ultimately show ?thesis
      using that by (auto simp: none)
  qed
  show ?thesis
    apply (rule exI[of _ ggi])
    apply (rule exI[of _ ?gi])
    apply (rule exI[of _ h3])
    using plan dom working by blast
qed

theorem deletion_set_follows_filtered_index_witness:
  "drain (tgt_GroupsPages (w_target (membersWorld []))) [] = ([engTarget], None) \<and>
   src_Groups (w_source (membersWorld [])) [] = Inr [engSource] \<and>
   (\<exists>googleGroupsIndex groupsIndex h3.
      planGroups cfgIgnoreEng (membersWorld []) [] [] =
        (Inr (googleGroupsIndex,
              filter (\<lambda>g. ToString (g_DisplayName g) \<notin> set (sourceIndexNames cfgIgnoreEng [engSource]))
                [engTarget],
              groupsIndex), h3) \<and>
      dom googleGroupsIndex = set (sourceIndexNames cfgIgnoreEng [engSource]) \<and>
      (\<forall>g \<in> set [engTarget].
          map_of groupsIndex (ToString (g_DisplayName g)) = None \<longleftrightarrow>
          ToString (g_DisplayName g) \<notin> set (sourceIndexNames cfgIgnoreEng [engSource])))"
proof -
  have a1: "drain (tgt_GroupsPages (w_target (membersWorld []))) [] = ([engTarget], None)"
    by (simp add: world_defs)
  have a2: "src_Groups (w_source (membersWorld [])) [] = Inr [engSource]"
    by (simp add: world_defs)
  show ?thesis
    by (intro conjI a1 a2 deletion_set_follows_filtered_index[OF a1 a2])
qed

text \<open>
  C3 as stated fails: source group \<open>Eng\<close> is on the ignore list by its email, target
  group \<open>Eng\<close> exists. Its display name has an entry among all source groups, yet the run
  deletes it.
\<close>

theorem deletion_ignores_unfiltered_index_counterexample:
  "DoSync cfgIgnoreEng (membersWorld []) [] =
     (Done, [AwsGetUsers, GoogleGetDeletedUsers, GoogleGetUsers [], AwsGetGroups,
             GoogleGetGroups [], DeleteGroup engTarget]) \<and>
   \<not> specMarkedForDeletion [engSource] engTarget"
  by (simp add: sync_defs adapter_defs world_defs cfgIgnoreEng_def specMarkedForDeletion_def)

text \<open>
  C10. The ignore-list check is exact membership of the given string in the configured
  list. When both group listings succeed, \<open>SyncGroups\<close> applies it to the email of each
  source group and keys everything else by display name. The source-group index holds
  exactly the display names of the source groups whose email is not listed, each group
  under its own display name, whether or not that display name is listed. The groups
  requested for creation are source groups whose email is not listed, and their display
  names are exactly the indexed names that no target group bears; a group the store
  created is filed in the working index under its display name. The target groups marked
  for deletion, and removed from the working index, are those whose display name is not
  indexed, and every entry of the working index is filed under its display name. After
  its third loop \<open>SyncGroups\<close> requests no creation and deletes marked groups only, in
  order, all of them if it returns without error.
\<close>

theorem ignore_list_matches_group_email:
  assumes tgt: "drain (tgt_GroupsPages (w_target w)) [] = (awsGroups, None)"
    and src: "src_Groups (w_source w) query = Inr googleGroups"
  shows "(ignoreGroup cfg name \<longleftrightarrow> name \<in> set (IgnoreGroups cfg)) \<and>
   (\<exists>googleGroupsIndex groupsToDelete groupsIndex h3 created rest n.
      planGroups cfg w query h = (Inr (googleGroupsIndex, groupsToDelete, groupsIndex), h3) \<and>
      (\<forall>k. googleGroupsIndex k \<noteq> None \<longleftrightarrow>
            (\<exists>g \<in> set googleGroups. ag_Email g \<notin> set (IgnoreGroups cfg) \<and> ag_Name g = k)) \<and>
      (\<forall>k g. googleGroupsIndex k = Some g \<longrightarrow>
            g \<in> set googleGroups \<and> ag_Email g \<notin> set (IgnoreGroups cfg) \<and> ag_Name g = k) \<and>
      h3 = h @ [AwsGetGroups, GoogleGetGroups query] @
             map (\<lambda>g. CreateGroup (Some (ag_Name g)) (Some (ag_Description g))) created \<and>
      (\<forall>g \<in> set created. g \<in> set googleGroups \<and> ag_Email g \<notin> set (IgnoreGroups cfg)) \<and>
      ag_Name ` set created =
        {k. googleGroupsIndex k \<noteq> None} - (\<lambda>t. ToString (g_DisplayName t)) ` set awsGroups \<and>
      (\<forall>i < length created. \<forall>gid.
          api_CreateGroup (w_store w)
            (h @ [AwsGetGroups, GoogleGetGroups query] @
               map (\<lambda>g. CreateGroup (Some (ag_Name g)) (Some (ag_Description g))) (take i created))
            (identityStoreId w) (Some (ag_Name (created ! i)))
            (Some (ag_Description (created ! i))) = Inr gid \<longrightarrow>
          map_of groupsIndex (ag_Name (created ! i)) =
            Some \<lparr>g_GroupId = gid, g_DisplayName = Some (ag_Name (created ! i)),
                  g_Description = Some (ag_Description (created ! i))\<rparr>) \<and>
      groupsToDelete =
        filter (\<lambda>t. googleGroupsIndex (ToString (g_DisplayName t)) = None) awsGroups \<and>
      (\<forall>k t. map_of groupsIndex k = Some t \<longrightarrow>
            ToString (g_DisplayName t) = k \<and> googleGroupsIndex k \<noteq> None) \<and>
      (\<forall>t \<in> set awsGroups.
          map_of groupsIndex (ToString (g_DisplayName t)) = None \<longleftrightarrow>
          googleGroupsIndex (ToString (g_DisplayName t)) = None) \<and>
      snd (SyncGroups cfg w query usr h) = h3 @ rest @ map DeleteGroup (take n groupsToDelete) \<and>
      (\<forall>c \<in> set rest. (\<forall>k d. c \<noteq> CreateGroup k d) \<and> (\<forall>t. c \<noteq> DeleteGroup t)) \<and>
      (fst (SyncGroups cfg w query usr h) = Done \<longrightarrow> n = length groupsToDelete))"
proof -
  let ?C = "\<lambda>g. CreateGroup (Some (ag_Name g)) (Some (ag_Description g))"
  let ?L = "[AwsGetGroups, GoogleGetGroups query]"
  let ?name = "\<lambda>t. ToString (g_DisplayName t)"
  obtain ggi gi1 h3 where loop2: "foldl (syncGroup cfg w)
       (Map.empty, foldl indexGroup [] awsGroups, h @ ?L) googleGroups = (ggi, gi1, h3)"
    by (cases "foldl (syncGroup cfg w)
       (Map.empty, foldl indexGroup [] awsGroups, h @ ?L) googleGroups") auto
  let ?del = "filter (\<lambda>t. ggi (?name t) = None) awsGroups"
  let ?gi = "filter (\<lambda>p. \<not> (fst p \<in> ?name ` set awsGroups \<and> ggi (fst p) = None)) gi1"
  have plan: "planGroups cfg w query h = (Inr (ggi, ?del, ?gi), h3)"
    by (rule planGroups_run[OF tgt src loop2])
  have dom: "dom ggi = set (sourceIndexNames cfg googleGroups)"
    using syncGroup_fold_index[OF loop2] by simp
  have idx: "ggi k \<noteq> None \<longleftrightarrow>
      (\<exists>g \<in> set googleGroups. ag_Email g \<notin> set (IgnoreGroups cfg) \<and> ag_Name g = k)" for k
  proof -
    have "ggi k \<noteq> None \<longleftrightarrow> k \<in> dom ggi" by (simp add: domIff)
    then show ?thesis unfolding dom by (auto simp: sourceIndexNames_def ignoreGroup_iff)
  qed
  have entry: "g \<in> set googleGroups \<and> ag_Email g \<notin> set (IgnoreGroups cfg) \<and> ag_Name g = k"
    if "ggi k = Some g" for k g
    using syncGroup_fold_source[OF loop2 that] by (simp add: ignoreGroup_iff)
  from syncGroup_fold_created[OF loop2] obtain created where
    h3: "h3 = (h @ ?L) @ map ?C created"
    and created: "\<forall>g \<in> set created. g \<in> set googleGroups \<and> \<not> ignoreGroup cfg (ag_Email g)"
    and names: "ag_Name ` set created =
        set (sourceIndexNames cfg googleGroups) - fst ` set (foldl indexGroup [] awsGroups)"
    and filed: "\<forall>i < length created. \<forall>gid.
              api_CreateGroup (w_store w) ((h @ ?L) @ map ?C (take i created))
                (identityStoreId w) (Some (ag_Name (created ! i)))
                (Some (ag_Description (created ! i))) = Inr gid \<longrightarrow>
              map_of gi1 (ag_Name (created ! i)) =
                Some \<lparr>g_GroupId = gid, g_DisplayName = Some (ag_Name (created ! i)),
                      g_Description = Some (ag_Description (created ! i))\<rparr>"
    by blast
  have kept: "map_of ?gi k = (if \<not> (k \<in> ?name ` set awsGroups \<and> ggi k = None)
                               then map_of gi1 k else None)" for k
    by (rule map_of_filter_key[of "\<lambda>k. \<not> (k \<in> ?name ` set awsGroups \<and> ggi k = None)"])
  have names': "ag_Name ` set created = {k. ggi k \<noteq> None} - ?name ` set awsGroups"
  proof -
    have "{k. ggi k \<noteq> None} = dom ggi" by (auto simp: domIff)
    with names dom show ?thesis by (simp add: indexGroup_fold_keys)
  qed
  have created': "\<forall>g \<in> set created. g \<in> set googleGroups \<and> ag_Email g \<notin> set (IgnoreGroups cfg)"
    using created by (simp add: ignoreGroup_iff)
  have filed': "\<forall>i < length created. \<forall>gid.
          api_CreateGroup (w_store w) (h @ ?L @ map ?C (take i created))
            (identityStoreId w) (Some (ag_Name (created ! i)))
            (Some (ag_Description (created ! i))) = Inr gid \<longrightarrow>
          map_of ?gi (ag_Name (created ! i)) =
            Some \<lparr>g_GroupId = gid, g_DisplayName = Some (ag_Name (created ! i)),
                  g_Description = Some (ag_Description (created ! i))\<rparr>"
  proof (intro allI impI)
    fix i gid
    assume i: "i < length created"
      and reply: "api_CreateGroup (w_store w) (h @ ?L @ map ?C (take i created))
            (identityStoreId w) (Some (ag_Name (created ! i)))
            (Some (ag_Description (created ! i))) = Inr gid"
    from filed i reply have "map_of gi1 (ag_Name (created ! i)) =
                Some \<lparr>g_GroupId = gid, g_DisplayName = Some (ag_Name (created ! i)),
                      g_Description = Some (ag_Description (created ! i))\<rparr>" by simp
    moreover from i have "created ! i \<in> set created" by simp
    with created have "ag_Name (created ! i) \<in> set (sourceIndexNames cfg googleGroups)"
      by (auto simp: sourceIndexNames_def)
    with dom have "ggi (ag_Name (created ! i)) \<noteq> None" by (auto simp: domIff)
    ultimately show "map_of ?gi (ag_Name (created ! i)) =
            Some \<lparr>g_GroupId = gid, g_DisplayName = Some (ag_Name (created ! i)),
                  g_Description = Some (ag_Description (created ! i))\<rparr>"
      unfolding kept by simp
  qed
  have working: "ToString (g_DisplayName t) = k \<and> ggi k \<noteq> None" if "map_of ?gi k = Some t" for k t
  proof -
    from that kept[of k] have keep: "\<not> (k \<in> ?name ` set awsGroups \<and> ggi k = None)"
      and k1: "map_of gi1 k = Some t" by (auto split: if_splits)
    from syncGroup_fold_working[OF loop2 k1]
    consider "map_of (foldl indexGroup [] awsGroups) k = Some t"
      | "k = ToString (g_DisplayName t)" "k \<in> dom ggi" by blast
    then show ?thesis
    proof cases
      case 1
      from indexGroup_fold[OF 1] have "t \<in> set awsGroups" "k = ToString (g_DisplayName t)"
        by auto
      with keep show ?thesis by auto
    next
      case 2
      then show ?thesis by auto
    qed
  qed
  have marked: "map_of ?gi (?name t) = None \<longleftrightarrow> ggi (?name t) = None" if "t \<in> set awsGroups" for t
  proof -
    from that have "?name t \<in> fst ` set (foldl indexGroup [] awsGroups)"
      by (simp add: indexGroup_fold_keys)
    with syncGroup_fold_keys[OF loop2] have "?name t \<in> fst ` set gi1" by blast
    then have "map_of gi1 (?name t) \<noteq> None" by (simp add: map_of_eq_None_iff)
    with that show ?thesis unfolding kept by auto
  qed
  from SyncGroups_after_plan[OF plan, of usr] obtain rest n where
    run: "SyncGroups cfg w query usr h =
            (fst (SyncGroups cfg w query usr h), h3 @ rest @ map DeleteGroup (take n ?del))"
    and rest: "\<forall>c \<in> set rest. (\<forall>n d. c \<noteq> CreateGroup n d) \<and> (\<forall>g. c \<noteq> DeleteGroup g)"
    and all: "fst (SyncGroups cfg w query usr h) = Done \<longrightarrow> n = length ?del"
    by blast
  from run have trace: "snd (SyncGroups cfg w query usr h) = h3 @ rest @ map DeleteGroup (take n ?del)"
    by (metis snd_conv)
  have h3': "h3 = h @ ?L @ map ?C created" using h3 by simp
  have "\<exists>googleGroupsIndex groupsToDelete groupsIndex h3 created rest n.
      planGroups cfg w query h = (Inr (googleGroupsIndex, groupsToDelete, groupsIndex), h3) \<and>
      (\<forall>k. googleGroupsIndex k \<noteq> None \<longleftrightarrow>
            (\<exists>g \<in> set googleGroups. ag_Email g \<notin> set (IgnoreGroups cfg) \<and> ag_Name g = k)) \<and>
      (\<forall>k g. googleGroupsIndex k = Some g \<longrightarrow>
            g \<in> set googleGroups \<and> ag_Email g \<notin> set (IgnoreGroups cfg) \<and> ag_Name g = k) \<and>
      h3 = h @ ?L @ map ?C created \<and>
      (\<forall>g \<in> set created. g \<in> set googleGroups \<and> ag_Email g \<notin> set (IgnoreGroups cfg)) \<and>
      ag_Name ` set created = {k. googleGroupsIndex k \<noteq> None} - ?name ` set awsGroups \<and>
      (\<forall>i < length created. \<forall>gid.
          api_CreateGroup (w_store w) (h @ ?L @ map ?C (take i created))
            (identityStoreId w) (Some (ag_Name (created ! i)))
            (Some (ag_Description (created ! i))) = Inr gid \<longrightarrow>
          map_of groupsIndex (ag_Name (created ! i)) =
            Some \<lparr>g_GroupId = gid, g_DisplayName = Some (ag_Name (created ! i)),
                  g_Description = Some (ag_Description (created ! i))\<rparr>) \<and>
      groupsToDelete = filter (\<lambda>t. googleGroupsIndex (?name t) = None) awsGroups \<and>
      (\<forall>k t. map_of groupsIndex k = Some t \<longrightarrow>
            ToString (g_DisplayName t) = k \<and> googleGroupsIndex k \<noteq> None) \<and>
      (\<forall>t \<in> set awsGroups.
          map_of groupsIndex (?name t) = None \<longleftrightarrow> googleGroupsIndex (?name t) = None) \<and>
      snd (SyncGroups cfg w query usr h) = h3 @ rest @ map DeleteGroup (take n groupsToDelete) \<and>
      (\<forall>c \<in> set rest. (\<forall>k d. c \<noteq> CreateGroup k d) \<and> (\<forall>t. c \<noteq> DeleteGroup t)) \<and>
      (fst (SyncGroups cfg w query usr h) = Done \<longrightarrow> n = length groupsToDelete)"
    apply (rule exI[of _ ggi], rule exI[of _ ?del], rule exI[of _ ?gi], rule exI[of _ h3],
           rule exI[of _ created], rule exI[of _ rest], rule exI[of _ n])
    apply (intro conjI)
    subgoal by (rule plan)
    subgoal using idx by blast
    subgoal using entry by blast
    subgoal by (rule h3')
    subgoal by (rule created')
    subgoal by (rule names')
    subgoal by (rule filed')
    subgoal by (rule refl)
    subgoal using working by blast
    subgoal using marked by blast
    subgoal by (rule trace)
    subgoal by (rule rest)
    subgoal by (rule all)
    done
  then show ?thesis by (simp add: ignoreGroup_iff)
qed

theorem ignore_list_matches_group_email_witness:
  "drain (tgt_GroupsPages (w_target (directoryWorld [] [] [engSource] [] [] okStore))) [] = ([], None) \<and>
   src_Groups (w_source (directoryWorld [] [] [engSource] [] [] okStore)) [] = Inr [engSource] \<and>
   ag_Name engSource \<in> set (IgnoreGroups cfgIgnoreName) \<and>
   ag_Email engSource \<notin> set (IgnoreGroups cfgIgnoreName) \<and>
   ignoreGroup cfgIgnoreName ''Eng'' \<and>
   (\<exists>googleGroupsIndex groupsToDelete groupsIndex h3.
      planGroups cfgIgnoreName (directoryWorld [] [] [engSource] [] [] okStore) [] [] =
        (Inr (googleGroupsIndex, groupsToDelete, groupsIndex), h3) \<and>
      googleGroupsIndex ''Eng'' = Some engSource \<and>
      CreateGroup (Some ''Eng'') (Some ''Engineering'') \<in> set h3) \<and>
   SyncGroups cfgIgnoreName (directoryWorld [] [] [engSource] [] [] okStore) [] emptyResult [] =
     (Done, [AwsGetGroups, GoogleGetGroups [], CreateGroup (Some ''Eng'') (Some ''Engineering''),
             GoogleGetGroupMembers engSource,
             AwsGetGroupMembers \<lparr>g_GroupId = Some ''new-group'', g_DisplayName = Some ''Eng'',
                                   g_Description = Some ''Engineering''\<rparr>]) \<and>
   ag_Name engSource \<notin> set (IgnoreGroups cfgIgnoreEng) \<and>
   ag_Email engSource \<in> set (IgnoreGroups cfgIgnoreEng) \<and>
   (\<exists>googleGroupsIndex groupsToDelete groupsIndex.
      planGroups cfgIgnoreEng (directoryWorld [] [] [engSource] [] [] okStore) [] [] =
        (Inr (googleGroupsIndex, groupsToDelete, groupsIndex), [AwsGetGroups, GoogleGetGroups []]) \<and>
      googleGroupsIndex ''Eng'' = None) \<and>
   SyncGroups cfgIgnoreEng (directoryWorld [] [] [engSource] [] [] okStore) [] emptyResult [] =
     (Done, [AwsGetGroups, GoogleGetGroups []])"
proof -
  let ?w = "directoryWorld [] [] [engSource] [] [] okStore"
  let ?C = "\<lambda>g. CreateGroup (Some (ag_Name g)) (Some (ag_Description g))"
  have tgt: "drain (tgt_GroupsPages (w_target ?w)) [] = ([], None)"
    and src: "src_Groups (w_source ?w) [] = Inr [engSource]"
    by (simp_all add: world_defs)
  have a: "ag_Name engSource \<in> set (IgnoreGroups cfgIgnoreName)"
    and a': "ag_Email engSource \<notin> set (IgnoreGroups cfgIgnoreName)"
    and b: "ag_Name engSource \<notin> set (IgnoreGroups cfgIgnoreEng)"
    and b': "ag_Email engSource \<in> set (IgnoreGroups cfgIgnoreEng)"
    by (simp_all add: world_defs)
  have eng: "ag_Name engSource = ''Eng''" "ag_Description engSource = ''Engineering''"
    by (simp_all add: engSource_def)
  note t1 = ignore_list_matches_group_email[OF tgt src, of cfgIgnoreName "''Eng''" "[]" emptyResult]
  note t2 = ignore_list_matches_group_email[OF tgt src, of cfgIgnoreEng "''Eng''" "[]" emptyResult]
  from t1[THEN conjunct1] a eng have c: "ignoreGroup cfgIgnoreName ''Eng''" by simp
  from t1[THEN conjunct2] obtain ggi del gi h3 and created :: "admin_Group list" where
    plan: "planGroups cfgIgnoreName ?w [] [] = (Inr (ggi, del, gi), h3)"
    and idx: "\<forall>k. ggi k \<noteq> None \<longleftrightarrow>
            (\<exists>g \<in> set [engSource]. ag_Email g \<notin> set (IgnoreGroups cfgIgnoreName) \<and> ag_Name g = k)"
    and entry: "\<forall>k g. ggi k = Some g \<longrightarrow>
            g \<in> set [engSource] \<and> ag_Email g \<notin> set (IgnoreGroups cfgIgnoreName) \<and> ag_Name g = k"
    and h3: "h3 = [] @ [AwsGetGroups, GoogleGetGroups []] @ map ?C created"
    and created: "\<forall>g \<in> set created. g \<in> set [engSource] \<and> ag_Email g \<notin> set (IgnoreGroups cfgIgnoreName)"
    and names: "ag_Name ` set created =
        {k. ggi k \<noteq> None} - (\<lambda>t. ToString (g_DisplayName t)) ` set ([] :: Group list)"
    by (elim exE conjE) (rule that, assumption+)
  from idx a' eng have "ggi ''Eng'' \<noteq> None" by auto
  then obtain g where g: "ggi ''Eng'' = Some g" by blast
  with entry have "g = engSource" by auto
  with g have e1: "ggi ''Eng'' = Some engSource" by simp
  from \<open>ggi ''Eng'' \<noteq> None\<close> names have "''Eng'' \<in> ag_Name ` set created" by simp
  then obtain x where "x \<in> set created" "ag_Name x = ''Eng''" by auto
  with created have "engSource \<in> set created" by auto
  with h3 eng have e2: "CreateGroup (Some ''Eng'') (Some ''Engineering'') \<in> set h3" by force
  from plan e1 e2 have first: "\<exists>googleGroupsIndex groupsToDelete groupsIndex h3.
      planGroups cfgIgnoreName ?w [] [] = (Inr (googleGroupsIndex, groupsToDelete, groupsIndex), h3) \<and>
      googleGroupsIndex ''Eng'' = Some engSource \<and>
      CreateGroup (Some ''Eng'') (Some ''Engineering'') \<in> set h3" by blast
  from t2[THEN conjunct2] obtain ggi' del' gi' h3' and created' :: "admin_Group list" where
    plan': "planGroups cfgIgnoreEng ?w [] [] = (Inr (ggi', del', gi'), h3')"
    and idx': "\<forall>k. ggi' k \<noteq> None \<longleftrightarrow>
            (\<exists>g \<in> set [engSource]. ag_Email g \<notin> set (IgnoreGroups cfgIgnoreEng) \<and> ag_Name g = k)"
    and h3': "h3' = [] @ [AwsGetGroups, GoogleGetGroups []] @ map ?C created'"
    and names': "ag_Name ` set created' =
        {k. ggi' k \<noteq> None} - (\<lambda>t. ToString (g_DisplayName t)) ` set ([] :: Group list)"
    by (elim exE conjE) (rule that, assumption+)
  from idx' b' have none: "ggi' k = None" for k by auto
  with names' have "created' = []" by simp
  with h3' plan' none have second: "\<exists>googleGroupsIndex groupsToDelete groupsIndex.
      planGroups cfgIgnoreEng ?w [] [] =
        (Inr (googleGroupsIndex, groupsToDelete, groupsIndex), [AwsGetGroups, GoogleGetGroups []]) \<and>
      googleGroupsIndex ''Eng'' = None" by auto
  have run1: "SyncGroups cfgIgnoreName ?w [] emptyResult [] =
     (Done, [AwsGetGroups, GoogleGetGroups [], CreateGroup (Some ''Eng'') (Some ''Engineering''),
             GoogleGetGroupMembers engSource,
             AwsGetGroupMembers \<lparr>g_GroupId = Some ''new-group'', g_DisplayName = Some ''Eng'',
                                   g_Description = Some ''Engineering''\<rparr>])"
    by (simp add: sync_defs adapter_defs world_defs)
  have run2: "SyncGroups cfgIgnoreEng ?w [] emptyResult [] = (Done, [AwsGetGroups, GoogleGetGroups []])"
    by (simp add: sync_defs adapter_defs world_defs)
  show ?thesis
    by (intro conjI tgt src a a' c first run1 b b' second run2)
qed

section \<open>User reconciliation\<close>

subsection \<open>First and second loop\<close>

lemma indexUser_fold_toDelete [simp]:
  "toDelete (foldl indexUser usr us) = toDelete usr"
  by (induction us arbitrary: usr) (auto simp: indexUser_def)

lemma indexUser_fold_index:
  "index (foldl indexUser usr us) k = Some t \<Longrightarrow>
     index usr k = Some t \<or> (t \<in> set us \<and> ToString (u_UserName t) = k)"
proof (induction us arbitrary: usr)
  case Nil
  then show ?case by simp
next
  case (Cons a us)
  from Cons.IH[of "indexUser usr a"] Cons.prems
  have "index (indexUser usr a) k = Some t \<or> (t \<in> set us \<and> ToString (u_UserName t) = k)"
    by simp
  then show ?case by (auto simp: indexUser_def split: if_splits)
qed

lemma indexUser_fold_dom:
  "dom (index (foldl indexUser usr us)) = dom (index usr) \<union> (\<lambda>t. ToString (u_UserName t)) ` set us"
  by (induction us arbitrary: usr) (auto simp: indexUser_def)

lemma keyed_indexed: "keyed (foldl indexUser emptyResult us)"
  unfolding keyed_def
proof (intro allI impI)
  fix k t
  assume "index (foldl indexUser emptyResult us) k = Some t"
  from indexUser_fold_index[OF this] show "ToString (u_UserName t) = k"
    by (auto simp: emptyResult_def)
qed

lemma markDeleted_fold:
  "foldl markDeleted usr ds =
     usr\<lparr>toDelete := toDelete usr @ List.map_filter (\<lambda>d. index usr (PrimaryEmail d)) ds\<rparr>"
proof (induction ds arbitrary: usr)
  case Nil
  then show ?case by simp
next
  case (Cons d ds)
  have step: "markDeleted usr d =
      (case index usr (PrimaryEmail d) of None \<Rightarrow> usr
       | Some t \<Rightarrow> usr\<lparr>toDelete := toDelete usr @ [t]\<rparr>)"
    by (simp add: markDeleted_def)
  show ?case
    by (cases "index usr (PrimaryEmail d)") (simp_all add: Cons.IH step)
qed

lemma count_tombstones:
  assumes "keyed usr" and "index usr e = Some t"
  shows "count_list (List.map_filter (\<lambda>d. index usr (PrimaryEmail d)) ds) t =
           length (filter (\<lambda>d. PrimaryEmail d = e) ds)"
proof (induction ds)
  case Nil
  then show ?case by simp
next
  case (Cons d ds)
  show ?case
  proof (cases "index usr (PrimaryEmail d)")
    case None
    with assms(2) have "PrimaryEmail d \<noteq> e" by auto
    with None Cons.IH show ?thesis by simp
  next
    case (Some y)
    have "y = t \<longleftrightarrow> PrimaryEmail d = e"
      using Some assms unfolding keyed_def by (metis option.inject)
    with Some Cons.IH show ?thesis by simp
  qed
qed

subsection \<open>Third loop\<close>

lemma syncUser_cases:
  obtains
    (ignored) "ignoreUser cfg (PrimaryEmail u)" "syncUser cfg w (usr, h) u = (usr, h)"
  | (suspended) t where "\<not> ignoreUser cfg (PrimaryEmail u)" "index usr (PrimaryEmail u) = Some t"
      "Suspended u" "syncUser cfg w (usr, h) u = (usr\<lparr>toDelete := toDelete usr @ [t]\<rparr>, h)"
  | (present) t where "\<not> ignoreUser cfg (PrimaryEmail u)" "index usr (PrimaryEmail u) = Some t"
      "\<not> Suspended u" "syncUser cfg w (usr, h) u = (usr, h)"
  | (skipped) "\<not> ignoreUser cfg (PrimaryEmail u)" "index usr (PrimaryEmail u) = None"
      "Suspended u" "syncUser cfg w (usr, h) u = (usr, h)"
  | (failed) "\<not> ignoreUser cfg (PrimaryEmail u)" "index usr (PrimaryEmail u) = None"
      "\<not> Suspended u" "syncUser cfg w (usr, h) u = (usr, h @ [CreateUser (newUser u)])"
  | (created) uid where "\<not> ignoreUser cfg (PrimaryEmail u)" "index usr (PrimaryEmail u) = None"
      "\<not> Suspended u"
      "syncUser cfg w (usr, h) u =
         (usr\<lparr>index := (index usr)(PrimaryEmail u \<mapsto> (newUser u)\<lparr>u_UserId := uid\<rparr>),
              indexByUserId := (indexByUserId usr)(ToString uid \<mapsto> (newUser u)\<lparr>u_UserId := uid\<rparr>)\<rparr>,
          h @ [CreateUser (newUser u)])"
proof (cases "ignoreUser cfg (PrimaryEmail u)")
  case True
  then show ?thesis using ignored by (simp add: syncUser_def)
next
  case False
  show ?thesis
  proof (cases "index usr (PrimaryEmail u)")
    case (Some t)
    with False show ?thesis using suspended[of t] present[of t]
      by (cases "Suspended u") (simp_all add: syncUser_def)
  next
    case None
    show ?thesis
    proof (cases "Suspended u")
      case True
      with False None show ?thesis using skipped by (simp add: syncUser_def)
    next
      case notsusp: False
      show ?thesis
      proof (cases "api_CreateUser (w_store w) h
             \<lparr>cui_IdentityStoreId = identityStoreId w,
              cui_DisplayName = u_DisplayName (newUser u),
              cui_UserName = u_UserName (newUser u),
              cui_Name = u_Name (newUser u),
              cui_Emails = u_Emails (newUser u)\<rparr>")
        case (Inl e)
        with False None notsusp show ?thesis using failed
          by (simp add: syncUser_def aws_CreateUser_def)
      next
        case (Inr uid)
        with False None notsusp show ?thesis using created[of uid]
          by (simp add: syncUser_def aws_CreateUser_def)
      qed
    qed
  qed
qed

lemma newUser_name [simp]:
  "ToString (u_UserName (newUser u)) = PrimaryEmail u"
  by (simp add: newUser_def ToString_def)

lemma keyed_created:
  "keyed usr \<Longrightarrow>
   keyed (usr\<lparr>index := (index usr)(PrimaryEmail u \<mapsto> (newUser u)\<lparr>u_UserId := uid\<rparr>),
              indexByUserId := m\<rparr>)"
  by (simp add: keyed_def)

lemma keyed_toDelete [simp]: "keyed (usr\<lparr>toDelete := d\<rparr>) = keyed usr"
  by (simp add: keyed_def)

text \<open>What one step of the third loop leaves behind.\<close>

lemma syncUser_step:
  assumes "syncUser cfg w (usr, h) u = (usr', h')"
  shows "(\<forall>k t. index usr k = Some t \<longrightarrow> index usr' k = Some t) \<and>
     (keyed usr \<longrightarrow> keyed usr') \<and>
     ((h' = h \<and> toDelete usr' = toDelete usr) \<or>
      (\<exists>t. h' = h \<and> toDelete usr' = toDelete usr @ [t] \<and> \<not> ignoreUser cfg (PrimaryEmail u) \<and>
           Suspended u \<and> index usr (PrimaryEmail u) = Some t) \<or>
      (h' = h @ [CreateUser (newUser u)] \<and> toDelete usr' = toDelete usr \<and>
         \<not> ignoreUser cfg (PrimaryEmail u) \<and> \<not> Suspended u))"
proof (cases rule: syncUser_cases[of cfg u w usr h])
  case ignored
  with assms show ?thesis by simp
next
  case (suspended t)
  with assms show ?thesis by auto
next
  case (present t)
  with assms show ?thesis by simp
next
  case skipped
  with assms show ?thesis by simp
next
  case failed
  with assms show ?thesis by simp
next
  case (created uid)
  with assms have usr': "usr' = usr\<lparr>index := (index usr)(PrimaryEmail u \<mapsto> (newUser u)\<lparr>u_UserId := uid\<rparr>),
              indexByUserId := (indexByUserId usr)(ToString uid \<mapsto> (newUser u)\<lparr>u_UserId := uid\<rparr>)\<rparr>"
    and h': "h' = h @ [CreateUser (newUser u)]" by simp_all
  have "\<forall>k t. index usr k = Some t \<longrightarrow> index usr' k = Some t"
    using created(2) by (auto simp: usr')
  moreover have "keyed usr \<longrightarrow> keyed usr'"
    unfolding usr' using keyed_created by blast
  moreover have "toDelete usr' = toDelete usr" by (simp add: usr')
  ultimately show ?thesis
    using created(1,2,3) h' by blast
qed

lemma syncUser_fold:
  assumes "foldl (syncUser cfg w) (usr, h) us = (usr', h')"
  shows "(\<forall>k t. index usr k = Some t \<longrightarrow> index usr' k = Some t) \<and>
         (keyed usr \<longrightarrow> keyed usr') \<and>
         (\<exists>creates new.
             h' = h @ map (\<lambda>u. CreateUser (newUser u)) creates \<and>
             (\<forall>u \<in> set creates. u \<in> set us \<and> \<not> ignoreUser cfg (PrimaryEmail u) \<and> \<not> Suspended u) \<and>
             toDelete usr' = toDelete usr @ new \<and>
             (\<forall>t \<in> set new. \<exists>u \<in> set us. \<not> ignoreUser cfg (PrimaryEmail u) \<and> Suspended u \<and>
                                index usr' (PrimaryEmail u) = Some t))"
  using assms
proof (induction us arbitrary: usr h)
  case Nil
  then have "h' = h @ map (\<lambda>u. CreateUser (newUser u)) []" "toDelete usr' = toDelete usr @ []"
    "usr' = usr" by simp_all
  then show ?case
    apply (intro conjI allI impI)
      apply simp
     apply simp
    apply (rule exI[of _ "[]"], rule exI[of _ "[]"])
    by simp
next
  case (Cons u us)
  obtain usr1 h1 where step: "syncUser cfg w (usr, h) u = (usr1, h1)"
    by (cases "syncUser cfg w (usr, h) u")
  with Cons.prems have rest: "foldl (syncUser cfg w) (usr1, h1) us = (usr', h')" by simp
  from Cons.IH[OF rest] obtain creates new where
    keep: "\<forall>k t. index usr1 k = Some t \<longrightarrow> index usr' k = Some t"
    and key: "keyed usr1 \<longrightarrow> keyed usr'"
    and h': "h' = h1 @ map (\<lambda>u. CreateUser (newUser u)) creates"
    and creates: "\<forall>u \<in> set creates. u \<in> set us \<and> \<not> ignoreUser cfg (PrimaryEmail u) \<and> \<not> Suspended u"
    and del: "toDelete usr' = toDelete usr1 @ new"
    and new: "\<forall>t \<in> set new. \<exists>u \<in> set us. \<not> ignoreUser cfg (PrimaryEmail u) \<and> Suspended u \<and>
                                index usr' (PrimaryEmail u) = Some t"
    by blast
  note st = syncUser_step[OF step]
  have keep': "\<forall>k t. index usr k = Some t \<longrightarrow> index usr' k = Some t"
    using st keep by blast
  have key': "keyed usr \<longrightarrow> keyed usr'"
    using st key by blast
  from st consider
      (same) "h1 = h" "toDelete usr1 = toDelete usr"
    | (marked) t where "h1 = h" "toDelete usr1 = toDelete usr @ [t]"
        "\<not> ignoreUser cfg (PrimaryEmail u)" "Suspended u" "index usr (PrimaryEmail u) = Some t"
    | (create) "h1 = h @ [CreateUser (newUser u)]" "toDelete usr1 = toDelete usr"
        "\<not> ignoreUser cfg (PrimaryEmail u)" "\<not> Suspended u"
    by blast
  then have "\<exists>creates new.
             h' = h @ map (\<lambda>u. CreateUser (newUser u)) creates \<and>
             (\<forall>v \<in> set creates. v \<in> set (u # us) \<and> \<not> ignoreUser cfg (PrimaryEmail v) \<and> \<not> Suspended v) \<and>
             toDelete usr' = toDelete usr @ new \<and>
             (\<forall>t \<in> set new. \<exists>v \<in> set (u # us). \<not> ignoreUser cfg (PrimaryEmail v) \<and> Suspended v \<and>
                                index usr' (PrimaryEmail v) = Some t)"
  proof cases
    case same
    show ?thesis
      apply (rule exI[of _ creates], rule exI[of _ new])
      using same h' creates del new by auto
  next
    case (marked t)
    from marked(5) keep' have "index usr' (PrimaryEmail u) = Some t" by blast
    then show ?thesis
      apply -
      apply (rule exI[of _ creates], rule exI[of _ "t # new"])
      using marked h' creates del new by auto
  next
    case create
    show ?thesis
      apply (rule exI[of _ "u # creates"], rule exI[of _ new])
      using create h' creates del new by auto
  qed
  with keep' key' show ?case by blast
qed

lemma syncUser_fold_count:
  assumes "foldl (syncUser cfg w) (usr, h) us = (usr', h')"
    and "index usr e = Some t" and "keyed usr" and "\<not> ignoreUser cfg e"
  shows "count_list (toDelete usr') t =
           count_list (toDelete usr) t + length (filter (\<lambda>u. PrimaryEmail u = e \<and> Suspended u) us)"
  using assms
proof (induction us arbitrary: usr h)
  case Nil
  then show ?case by simp
next
  case (Cons u us)
  note e = \<open>index usr e = Some t\<close> and k = \<open>keyed usr\<close> and ni = \<open>\<not> ignoreUser cfg e\<close>
  have key: "k = e" if "index usr k = Some t" for k
    using that e k unfolding keyed_def by metis
  show ?case
  proof (cases rule: syncUser_cases[of cfg u w usr h])
    case ignored
    with Cons.prems(1) have "foldl (syncUser cfg w) (usr, h) us = (usr', h')" by simp
    from Cons.IH[OF this e k ni] ignored(1) ni show ?thesis by auto
  next
    case (suspended t')
    with Cons.prems(1) have "foldl (syncUser cfg w) (usr\<lparr>toDelete := toDelete usr @ [t']\<rparr>, h) us = (usr', h')"
      by simp
    from Cons.IH[OF this] e k ni
    have "count_list (toDelete usr') t = count_list (toDelete usr @ [t']) t +
       length (filter (\<lambda>u. PrimaryEmail u = e \<and> Suspended u) us)" by simp
    moreover have "t' = t \<longleftrightarrow> PrimaryEmail u = e"
      using suspended(2) e key[of "PrimaryEmail u"] by auto
    ultimately show ?thesis using suspended(3) by simp
  next
    case (present t')
    with Cons.prems(1) have "foldl (syncUser cfg w) (usr, h) us = (usr', h')" by simp
    from Cons.IH[OF this e k ni] present(3) show ?thesis by simp
  next
    case skipped
    with Cons.prems(1) have "foldl (syncUser cfg w) (usr, h) us = (usr', h')" by simp
    moreover from skipped(2) e have "PrimaryEmail u \<noteq> e" by auto
    ultimately show ?thesis using Cons.IH[OF _ e k ni] by simp
  next
    case failed
    with Cons.prems(1) have "foldl (syncUser cfg w) (usr, h @ [CreateUser (newUser u)]) us = (usr', h')"
      by simp
    from Cons.IH[OF this e k ni] failed(3) show ?thesis by simp
  next
    case (created uid)
    let ?usr1 = "usr\<lparr>index := (index usr)(PrimaryEmail u \<mapsto> (newUser u)\<lparr>u_UserId := uid\<rparr>),
              indexByUserId := (indexByUserId usr)(ToString uid \<mapsto> (newUser u)\<lparr>u_UserId := uid\<rparr>)\<rparr>"
    from created Cons.prems(1)
    have f: "foldl (syncUser cfg w) (?usr1, h @ [CreateUser (newUser u)]) us = (usr', h')"
      by simp
    from created(2) e have ne: "PrimaryEmail u \<noteq> e" by auto
    then have e1: "index ?usr1 e = Some t" using e by simp
    have k1: "keyed ?usr1" using k by (rule keyed_created)
    from Cons.IH[OF f e1 k1 ni] created(3) show ?thesis by simp
  qed
qed

lemma syncUser_fold_quiet:
  assumes "foldl (syncUser cfg w) (usr, h) us = (usr', h)"
  shows "foldl (syncUser cfg w2) (usr, g) us = (usr', g)"
  using assms
proof (induction us arbitrary: usr)
  case Nil
  then show ?case by simp
next
  case (Cons u us)
  obtain usr1 h1 where step: "syncUser cfg w (usr, h) u = (usr1, h1)"
    by (cases "syncUser cfg w (usr, h) u")
  with Cons.prems have rest: "foldl (syncUser cfg w) (usr1, h1) us = (usr', h)" by simp
  from syncUser_fold[OF rest] obtain creates where "h = h1 @ map (\<lambda>u. CreateUser (newUser u)) creates"
    by blast
  moreover from syncUser_step[OF step] have "h1 = h \<or> h1 = h @ [CreateUser (newUser u)]"
    by blast
  ultimately have h1: "h1 = h" by auto
  have "syncUser cfg w2 (usr, g) u = (usr1, g)"
    using step h1
    by (cases rule: syncUser_cases[of cfg u w usr h]; cases rule: syncUser_cases[of cfg u w2 usr g])
       auto
  with Cons.IH[of usr1] rest h1 show ?case by simp
qed

subsection \<open>SyncUsers as a whole\<close>

lemma SyncUsers_ok:
  assumes "drain (tgt_UsersPages (w_target w)) [] = (awsUsers, None)"
    and "src_DeletedUsers (w_source w) = Inr deleted"
    and "src_Users (w_source w) query = Inr googleUsers"
    and "foldl (syncUser cfg w)
           (foldl markDeleted (foldl indexUser emptyResult awsUsers) deleted,
            h @ [AwsGetUsers, GoogleGetDeletedUsers, GoogleGetUsers query]) googleUsers = (usr, h')"
  shows "SyncUsers cfg w query h = ((usr, None), h')"
  using assms
  by (simp add: SyncUsers_def aws_GetUsers_def google_GetDeletedUsers_def google_GetUsers_def)

lemma SyncUsers_None:
  assumes "SyncUsers cfg w query h = ((usr, None), h')"
  obtains awsUsers deleted googleUsers where
    "drain (tgt_UsersPages (w_target w)) [] = (awsUsers, None)"
    "src_DeletedUsers (w_source w) = Inr deleted"
    "src_Users (w_source w) query = Inr googleUsers"
    "foldl (syncUser cfg w)
           (foldl markDeleted (foldl indexUser emptyResult awsUsers) deleted,
            h @ [AwsGetUsers, GoogleGetDeletedUsers, GoogleGetUsers query]) googleUsers = (usr, h')"
  using assms
  by (auto simp: SyncUsers_def aws_GetUsers_def google_GetDeletedUsers_def google_GetUsers_def
      Let_def split: prod.splits option.splits sum.splits)

lemma SyncUsers_Some:
  assumes "SyncUsers cfg w query h = ((usr, Some e), h')"
  shows "h' = h @ [AwsGetUsers] \<or> h' = h @ [AwsGetUsers, GoogleGetDeletedUsers] \<or>
         h' = h @ [AwsGetUsers, GoogleGetDeletedUsers, GoogleGetUsers query]"
  using assms
  by (auto simp: SyncUsers_def aws_GetUsers_def google_GetDeletedUsers_def google_GetUsers_def
      Let_def split: prod.splits option.splits sum.splits)

lemma SyncUsers_calls:
  assumes "SyncUsers cfg w query h = ((usr, e), h')"
  shows "\<exists>t. h' = h @ t \<and> (\<forall>c \<in> set t. userCall cfg (sourceUsers w query) c)"
proof (cases e)
  case (Some err)
  with SyncUsers_Some[of cfg w query h usr err h'] assms
  consider "h' = h @ [AwsGetUsers]" | "h' = h @ [AwsGetUsers, GoogleGetDeletedUsers]"
    | "h' = h @ [AwsGetUsers, GoogleGetDeletedUsers, GoogleGetUsers query]" by blast
  then show ?thesis
  proof cases
    case 1
    show ?thesis by (rule exI[of _ "[AwsGetUsers]"]) (simp add: 1)
  next
    case 2
    show ?thesis by (rule exI[of _ "[AwsGetUsers, GoogleGetDeletedUsers]"]) (simp add: 2)
  next
    case 3
    show ?thesis
      by (rule exI[of _ "[AwsGetUsers, GoogleGetDeletedUsers, GoogleGetUsers query]"]) (simp add: 3)
  qed
next
  case None
  with assms obtain awsUsers deleted googleUsers where
    src: "src_Users (w_source w) query = Inr googleUsers"
    and loop: "foldl (syncUser cfg w)
           (foldl markDeleted (foldl indexUser emptyResult awsUsers) deleted,
            h @ [AwsGetUsers, GoogleGetDeletedUsers, GoogleGetUsers query]) googleUsers = (usr, h')"
    by (auto elim: SyncUsers_None)
  from syncUser_fold[OF loop] obtain creates where
    h': "h' = (h @ [AwsGetUsers, GoogleGetDeletedUsers, GoogleGetUsers query]) @
              map (\<lambda>u. CreateUser (newUser u)) creates"
    and creates: "\<forall>u \<in> set creates. u \<in> set googleUsers \<and> \<not> ignoreUser cfg (PrimaryEmail u) \<and>
                     \<not> Suspended u"
    by blast
  show ?thesis
    apply (rule exI[of _ "[AwsGetUsers, GoogleGetDeletedUsers, GoogleGetUsers query] @
              map (\<lambda>u. CreateUser (newUser u)) creates"])
    using h' creates src by (auto simp: sourceUsers_def)
qed

lemma SyncUsers_pending:
  assumes "SyncUsers cfg w query h = ((usr, None), h')"
  shows "keyed usr"
    and "\<forall>t \<in> set (toDelete usr). \<exists>k. index usr k = Some t"
    and "\<forall>t \<in> set (toDelete usr).
           ToString (u_UserName t) \<in> PrimaryEmail ` set (sourceDeletedUsers w) \<or>
           \<not> ignoreUser cfg (ToString (u_UserName t))"
proof -
  from assms obtain awsUsers deleted googleUsers where
    del: "src_DeletedUsers (w_source w) = Inr deleted"
    and loop: "foldl (syncUser cfg w)
           (foldl markDeleted (foldl indexUser emptyResult awsUsers) deleted,
            h @ [AwsGetUsers, GoogleGetDeletedUsers, GoogleGetUsers query]) googleUsers = (usr, h')"
    by (auto elim: SyncUsers_None)
  let ?usr1 = "foldl indexUser emptyResult awsUsers"
  let ?usr2 = "foldl markDeleted ?usr1 deleted"
  have usr2: "?usr2 = ?usr1\<lparr>toDelete := List.map_filter (\<lambda>d. index ?usr1 (PrimaryEmail d)) deleted\<rparr>"
    by (simp add: markDeleted_fold emptyResult_def)
  have k2: "keyed ?usr2" unfolding usr2 using keyed_indexed by simp
  from syncUser_fold[OF loop] obtain new where
    keep: "\<forall>k t. index ?usr2 k = Some t \<longrightarrow> index usr k = Some t"
    and key: "keyed usr"
    and td: "toDelete usr = toDelete ?usr2 @ new"
    and new: "\<forall>t \<in> set new. \<exists>u \<in> set googleUsers. \<not> ignoreUser cfg (PrimaryEmail u) \<and> Suspended u \<and>
                                index usr (PrimaryEmail u) = Some t"
    using k2 by blast
  show "keyed usr" by (rule key)
  have tomb: "\<exists>d \<in> set deleted. index usr (PrimaryEmail d) = Some t" if "t \<in> set (toDelete ?usr2)" for t
  proof -
    from that obtain d :: admin_User where "d \<in> set deleted" "index ?usr1 (PrimaryEmail d) = Some t"
      unfolding usr2 by (auto simp: List.map_filter_def)
    moreover then have "index ?usr2 (PrimaryEmail d) = Some t" unfolding usr2 by simp
    ultimately show ?thesis using keep by blast
  qed
  show "\<forall>t \<in> set (toDelete usr). \<exists>k. index usr k = Some t"
    unfolding td using tomb new by auto
  show "\<forall>t \<in> set (toDelete usr).
           ToString (u_UserName t) \<in> PrimaryEmail ` set (sourceDeletedUsers w) \<or>
           \<not> ignoreUser cfg (ToString (u_UserName t))"
  proof
    fix t assume "t \<in> set (toDelete usr)"
    then consider "t \<in> set (toDelete ?usr2)" | "t \<in> set new" unfolding td by auto
    then show "ToString (u_UserName t) \<in> PrimaryEmail ` set (sourceDeletedUsers w) \<or>
           \<not> ignoreUser cfg (ToString (u_UserName t))"
    proof cases
      case 1
      from tomb[OF 1] obtain d :: admin_User where d: "d \<in> set deleted" "index usr (PrimaryEmail d) = Some t"
        by blast
      with key have "ToString (u_UserName t) = PrimaryEmail d" unfolding keyed_def by blast
      with d(1) del show ?thesis by (auto simp: sourceDeletedUsers_def)
    next
      case 2
      from new 2 have "\<exists>u \<in> set googleUsers. \<not> ignoreUser cfg (PrimaryEmail u) \<and> Suspended u \<and>
                                index usr (PrimaryEmail u) = Some t"
        by (rule bspec)
      then obtain u :: admin_User where
        u: "\<not> ignoreUser cfg (PrimaryEmail u)" "index usr (PrimaryEmail u) = Some t"
        by blast
      with key have "ToString (u_UserName t) = PrimaryEmail u" unfolding keyed_def by blast
      with u(1) show ?thesis by simp
    qed
  qed
qed

lemma SyncUsers_quiet:
  assumes run: "SyncUsers cfg w query h = ((usr, None), h @ t)"
    and quiet: "\<forall>c \<in> set t. \<not> isMutation c"
    and same: "w_source w2 = w_source w" "w_target w2 = w_target w"
  shows "SyncUsers cfg w2 query g =
           ((usr, None), g @ [AwsGetUsers, GoogleGetDeletedUsers, GoogleGetUsers query])"
proof -
  let ?L = "[AwsGetUsers, GoogleGetDeletedUsers, GoogleGetUsers query]"
  from run obtain awsUsers deleted googleUsers where
    tgt: "drain (tgt_UsersPages (w_target w)) [] = (awsUsers, None)"
    and tomb: "src_DeletedUsers (w_source w) = Inr deleted"
    and act: "src_Users (w_source w) query = Inr googleUsers"
    and loop: "foldl (syncUser cfg w)
           (foldl markDeleted (foldl indexUser emptyResult awsUsers) deleted, h @ ?L) googleUsers
             = (usr, h @ t)"
    by (rule SyncUsers_None)
  from syncUser_fold[OF loop] obtain creates :: "admin_User list" where
    "h @ t = (h @ ?L) @ map (\<lambda>u. CreateUser (newUser u)) creates" by blast
  then have t: "t = ?L @ map (\<lambda>u. CreateUser (newUser u)) creates" by simp
  with quiet have "\<forall>c \<in> set (map (\<lambda>u. CreateUser (newUser u)) creates). \<not> isMutation c"
    by (simp add: quiet_append)
  then have "creates = []" by (rule quiet_map_CreateUser)
  with t loop have "foldl (syncUser cfg w)
           (foldl markDeleted (foldl indexUser emptyResult awsUsers) deleted, h @ ?L) googleUsers
             = (usr, h @ ?L)" by simp
  from syncUser_fold_quiet[OF this, of w2 "g @ ?L"]
  have loop2: "foldl (syncUser cfg w2)
           (foldl markDeleted (foldl indexUser emptyResult awsUsers) deleted, g @ ?L) googleUsers
             = (usr, g @ ?L)" .
  show ?thesis
    by (rule SyncUsers_ok[OF _ _ _ loop2]) (simp_all add: same tgt tomb act)
qed

text \<open>One step of the third loop for a user to create, by the store's reply.\<close>

lemma syncUser_create:
  assumes "\<not> ignoreUser cfg (PrimaryEmail u)" and "\<not> Suspended u"
    and "index usr (PrimaryEmail u) = None"
  shows "syncUser cfg w (usr, h) u =
     (case api_CreateUser (w_store w) h
             \<lparr>cui_IdentityStoreId = identityStoreId w,
              cui_DisplayName = Some (GivenName u @ '' '' @ FamilyName u),
              cui_UserName = Some (PrimaryEmail u),
              cui_Name = Some \<lparr>n_FamilyName = Some (FamilyName u), n_GivenName = Some (GivenName u)\<rparr>,
              cui_Emails = [\<lparr>e_Primary = True, e_Type = Some ''work'',
                              e_Value = Some (PrimaryEmail u)\<rparr>]\<rparr> of
        Inl err \<Rightarrow> (usr, h @ [CreateUser (newUser u)])
      | Inr uid \<Rightarrow>
          (usr\<lparr>index := (index usr)(PrimaryEmail u \<mapsto> (newUser u)\<lparr>u_UserId := uid\<rparr>),
               indexByUserId := (indexByUserId usr)(ToString uid \<mapsto> (newUser u)\<lparr>u_UserId := uid\<rparr>)\<rparr>,
           h @ [CreateUser (newUser u)]))"
  using assms
  by (simp add: syncUser_def aws_CreateUser_def newUser_def split: sum.splits)

lemma syncUser_fold_new_index:
  assumes "foldl (syncUser cfg w) (usr, h) us = (usr', h')"
  shows "index usr' k = index usr k \<or>
         (\<exists>u \<in> set us. \<exists>uid. PrimaryEmail u = k \<and>
              index usr' k = Some ((newUser u)\<lparr>u_UserId := uid\<rparr>))"
  using assms
proof (induction us arbitrary: usr h)
  case Nil
  then show ?case by simp
next
  case (Cons a us)
  obtain usr1 h1 where step: "syncUser cfg w (usr, h) a = (usr1, h1)"
    by (cases "syncUser cfg w (usr, h) a")
  with Cons.prems have rest: "foldl (syncUser cfg w) (usr1, h1) us = (usr', h')" by simp
  from Cons.IH[OF rest]
  have ih: "index usr' k = index usr1 k \<or>
         (\<exists>u \<in> set us. \<exists>uid. PrimaryEmail u = k \<and>
              index usr' k = Some ((newUser u)\<lparr>u_UserId := uid\<rparr>))" .
  have one: "index usr1 k = index usr k \<or>
      (PrimaryEmail a = k \<and> (\<exists>uid. index usr1 k = Some ((newUser a)\<lparr>u_UserId := uid\<rparr>)))"
  proof (cases rule: syncUser_cases[of cfg a w usr h])
    case (created uid)
    with step have usr1: "usr1 = usr\<lparr>index := (index usr)(PrimaryEmail a \<mapsto> (newUser a)\<lparr>u_UserId := uid\<rparr>),
              indexByUserId := (indexByUserId usr)(ToString uid \<mapsto> (newUser a)\<lparr>u_UserId := uid\<rparr>)\<rparr>"
      by simp
    show ?thesis
    proof (cases "PrimaryEmail a = k")
      case True
      then have "PrimaryEmail a = k \<and> index usr1 k = Some ((newUser a)\<lparr>u_UserId := uid\<rparr>)"
        by (simp add: usr1)
      then show ?thesis by blast
    next
      case False
      then show ?thesis by (auto simp add: usr1)
    qed
  qed (use step in auto)
  from syncUser_fold[OF rest] have keep: "\<forall>t. index usr1 k = Some t \<longrightarrow> index usr' k = Some t"
    by blast
  from one show ?case
  proof
    assume "index usr1 k = index usr k"
    with ih show ?thesis by auto
  next
    assume "PrimaryEmail a = k \<and> (\<exists>uid. index usr1 k = Some ((newUser a)\<lparr>u_UserId := uid\<rparr>))"
    then obtain uid where a: "PrimaryEmail a = k"
      and "index usr1 k = Some ((newUser a)\<lparr>u_UserId := uid\<rparr>)" by blast
    with keep have "index usr' k = Some ((newUser a)\<lparr>u_UserId := uid\<rparr>)" by blast
    with a show ?thesis by auto
  qed
qed

lemma syncUser_fold_new_byId:
  assumes "foldl (syncUser cfg w) (usr, h) us = (usr', h')"
  shows "indexByUserId usr' k = indexByUserId usr k \<or>
         (\<exists>u \<in> set us. \<exists>uid. ToString uid = k \<and>
              indexByUserId usr' k = Some ((newUser u)\<lparr>u_UserId := uid\<rparr>))"
  using assms
proof (induction us arbitrary: usr h)
  case Nil
  then show ?case by simp
next
  case (Cons a us)
  obtain usr1 h1 where step: "syncUser cfg w (usr, h) a = (usr1, h1)"
    by (cases "syncUser cfg w (usr, h) a")
  with Cons.prems have rest: "foldl (syncUser cfg w) (usr1, h1) us = (usr', h')" by simp
  from Cons.IH[OF rest]
  have ih: "indexByUserId usr' k = indexByUserId usr1 k \<or>
         (\<exists>u \<in> set us. \<exists>uid. ToString uid = k \<and>
              indexByUserId usr' k = Some ((newUser u)\<lparr>u_UserId := uid\<rparr>))" .
  have one: "indexByUserId usr1 k = indexByUserId usr k \<or>
      (\<exists>uid. ToString uid = k \<and> indexByUserId usr1 k = Some ((newUser a)\<lparr>u_UserId := uid\<rparr>))"
  proof (cases rule: syncUser_cases[of cfg a w usr h])
    case (created uid)
    with step have usr1: "usr1 = usr\<lparr>index := (index usr)(PrimaryEmail a \<mapsto> (newUser a)\<lparr>u_UserId := uid\<rparr>),
              indexByUserId := (indexByUserId usr)(ToString uid \<mapsto> (newUser a)\<lparr>u_UserId := uid\<rparr>)\<rparr>"
      by simp
    show ?thesis
    proof (cases "ToString uid = k")
      case True
      then have "ToString uid = k \<and> indexByUserId usr1 k = Some ((newUser a)\<lparr>u_UserId := uid\<rparr>)"
        by (simp add: usr1)
      then show ?thesis by blast
    next
      case False
      then show ?thesis by (simp add: usr1)
    qed
  qed (use step in auto)
  from ih one show ?case by auto
qed

text \<open>
  C8. Let the three user listings succeed, and let the third loop of \<open>SyncUsers\<close> reach a
  source user who is not ignored, not suspended and absent from the username index as it
  stands then. Whatever the store replies, \<open>SyncUsers\<close> returns without error, and its
  next call is \<open>CreateUser\<close> for a user with the username as user name, given and family
  name joined by one space as display name, one email (primary, of type work, equal to
  the username) and one external id (issuer Google). If the store assigns an id, the loop
  goes on from a result in which the user carrying that id is filed under the username
  and under the id; the result returned holds it under the username, and under the id
  unless the store assigned the same id once more to a user created later. If the store
  answers with an error, the loop goes on with the next user from the unchanged result,
  and the username is still absent at the end unless a later entry of the listing with
  the same username was created.
\<close>

theorem new_user_construction:
  assumes tgt: "drain (tgt_UsersPages (w_target w)) [] = (awsUsers, None)"
    and tomb: "src_DeletedUsers (w_source w) = Inr deleted"
    and act: "src_Users (w_source w) query = Inr (pre @ u # post)"
    and reach: "foldl (syncUser cfg w)
           (foldl markDeleted (foldl indexUser emptyResult awsUsers) deleted,
            h @ [AwsGetUsers, GoogleGetDeletedUsers, GoogleGetUsers query]) pre = (usr0, h0)"
    and ni: "\<not> ignoreUser cfg (PrimaryEmail u)" and ns: "\<not> Suspended u"
    and absent: "index usr0 (PrimaryEmail u) = None"
  shows "\<exists>usr h' rest.
     SyncUsers cfg w query h = ((usr, None), h') \<and>
     h' = h0 @ CreateUser (newUser u) # rest \<and>
     u_UserName (newUser u) = Some (PrimaryEmail u) \<and>
     u_DisplayName (newUser u) = Some (GivenName u @ '' '' @ FamilyName u) \<and>
     u_Emails (newUser u) =
       [\<lparr>e_Primary = True, e_Type = Some ''work'', e_Value = Some (PrimaryEmail u)\<rparr>] \<and>
     u_ExternalIds (newUser u) = [\<lparr>x_Id = Some (Id_of u), x_Issuer = Some ''Google''\<rparr>] \<and>
     (case api_CreateUser (w_store w) h0
             \<lparr>cui_IdentityStoreId = identityStoreId w,
              cui_DisplayName = Some (GivenName u @ '' '' @ FamilyName u),
              cui_UserName = Some (PrimaryEmail u),
              cui_Name = Some \<lparr>n_FamilyName = Some (FamilyName u), n_GivenName = Some (GivenName u)\<rparr>,
              cui_Emails = [\<lparr>e_Primary = True, e_Type = Some ''work'',
                              e_Value = Some (PrimaryEmail u)\<rparr>]\<rparr> of
        Inl err \<Rightarrow>
          foldl (syncUser cfg w) (usr0, h0 @ [CreateUser (newUser u)]) post = (usr, h') \<and>
          (index usr (PrimaryEmail u) = None \<or>
           (\<exists>v \<in> set post. \<exists>vid. PrimaryEmail v = PrimaryEmail u \<and>
                index usr (PrimaryEmail u) = Some ((newUser v)\<lparr>u_UserId := vid\<rparr>)))
      | Inr uid \<Rightarrow>
          foldl (syncUser cfg w)
            (usr0\<lparr>index := (index usr0)(PrimaryEmail u \<mapsto> (newUser u)\<lparr>u_UserId := uid\<rparr>),
                  indexByUserId := (indexByUserId usr0)(ToString uid \<mapsto> (newUser u)\<lparr>u_UserId := uid\<rparr>)\<rparr>,
             h0 @ [CreateUser (newUser u)]) post = (usr, h') \<and>
          index usr (PrimaryEmail u) = Some ((newUser u)\<lparr>u_UserId := uid\<rparr>) \<and>
          (indexByUserId usr (ToString uid) = Some ((newUser u)\<lparr>u_UserId := uid\<rparr>) \<or>
           (\<exists>v \<in> set post. \<exists>vid. ToString vid = ToString uid \<and>
                indexByUserId usr (ToString uid) = Some ((newUser v)\<lparr>u_UserId := vid\<rparr>))))"
proof -
  let ?in = "\<lparr>cui_IdentityStoreId = identityStoreId w,
              cui_DisplayName = Some (GivenName u @ '' '' @ FamilyName u),
              cui_UserName = Some (PrimaryEmail u),
              cui_Name = Some \<lparr>n_FamilyName = Some (FamilyName u), n_GivenName = Some (GivenName u)\<rparr>,
              cui_Emails = [\<lparr>e_Primary = True, e_Type = Some ''work'',
                              e_Value = Some (PrimaryEmail u)\<rparr>]\<rparr>"
  let ?h1 = "h0 @ [CreateUser (newUser u)]"
  note step = syncUser_create[OF ni ns absent, of w h0]
  obtain usr1 where one: "syncUser cfg w (usr0, h0) u = (usr1, ?h1)"
    using step by (cases "api_CreateUser (w_store w) h0 ?in") simp_all
  obtain usr h' where rest: "foldl (syncUser cfg w) (usr1, ?h1) post = (usr, h')"
    by (cases "foldl (syncUser cfg w) (usr1, ?h1) post")
  have "foldl (syncUser cfg w)
           (foldl markDeleted (foldl indexUser emptyResult awsUsers) deleted,
            h @ [AwsGetUsers, GoogleGetDeletedUsers, GoogleGetUsers query]) (pre @ u # post) = (usr, h')"
    by (simp add: reach one rest)
  from SyncUsers_ok[OF tgt tomb act this]
  have run: "SyncUsers cfg w query h = ((usr, None), h')" .
  from syncUser_fold[OF rest] obtain creates where
    h': "h' = ?h1 @ map (\<lambda>u. CreateUser (newUser u)) creates"
    and keep: "\<forall>k t. index usr1 k = Some t \<longrightarrow> index usr k = Some t"
    by blast
  have trace: "h' = h0 @ CreateUser (newUser u) # map (\<lambda>u. CreateUser (newUser u)) creates"
    using h' by simp
  have fields: "u_UserName (newUser u) = Some (PrimaryEmail u)"
    "u_DisplayName (newUser u) = Some (GivenName u @ '' '' @ FamilyName u)"
    "u_Emails (newUser u) =
       [\<lparr>e_Primary = True, e_Type = Some ''work'', e_Value = Some (PrimaryEmail u)\<rparr>]"
    "u_ExternalIds (newUser u) = [\<lparr>x_Id = Some (Id_of u), x_Issuer = Some ''Google''\<rparr>]"
    by (simp_all add: newUser_def)
  have reply: "(case api_CreateUser (w_store w) h0 ?in of
        Inl err \<Rightarrow>
          foldl (syncUser cfg w) (usr0, ?h1) post = (usr, h') \<and>
          (index usr (PrimaryEmail u) = None \<or>
           (\<exists>v \<in> set post. \<exists>vid. PrimaryEmail v = PrimaryEmail u \<and>
                index usr (PrimaryEmail u) = Some ((newUser v)\<lparr>u_UserId := vid\<rparr>)))
      | Inr uid \<Rightarrow>
          foldl (syncUser cfg w)
            (usr0\<lparr>index := (index usr0)(PrimaryEmail u \<mapsto> (newUser u)\<lparr>u_UserId := uid\<rparr>),
                  indexByUserId := (indexByUserId usr0)(ToString uid \<mapsto> (newUser u)\<lparr>u_UserId := uid\<rparr>)\<rparr>,
             ?h1) post = (usr, h') \<and>
          index usr (PrimaryEmail u) = Some ((newUser u)\<lparr>u_UserId := uid\<rparr>) \<and>
          (indexByUserId usr (ToString uid) = Some ((newUser u)\<lparr>u_UserId := uid\<rparr>) \<or>
           (\<exists>v \<in> set post. \<exists>vid. ToString vid = ToString uid \<and>
                indexByUserId usr (ToString uid) = Some ((newUser v)\<lparr>u_UserId := vid\<rparr>))))"
  proof (cases "api_CreateUser (w_store w) h0 ?in")
    case (Inl err)
    with step one have usr1: "usr1 = usr0" by simp
    from syncUser_fold_new_index[OF rest, of "PrimaryEmail u"] absent
    have "index usr (PrimaryEmail u) = None \<or>
           (\<exists>v \<in> set post. \<exists>vid. PrimaryEmail v = PrimaryEmail u \<and>
                index usr (PrimaryEmail u) = Some ((newUser v)\<lparr>u_UserId := vid\<rparr>))"
      unfolding usr1 by auto
    with rest show ?thesis unfolding usr1 Inl by simp
  next
    case (Inr uid)
    let ?added = "(newUser u)\<lparr>u_UserId := uid\<rparr>"
    from Inr step one
    have usr1: "usr1 = usr0\<lparr>index := (index usr0)(PrimaryEmail u \<mapsto> ?added),
                  indexByUserId := (indexByUserId usr0)(ToString uid \<mapsto> ?added)\<rparr>" by simp
    have "index usr1 (PrimaryEmail u) = Some ?added" by (simp add: usr1)
    with keep have i: "index usr (PrimaryEmail u) = Some ?added" by blast
    have "indexByUserId usr1 (ToString uid) = Some ?added" by (simp add: usr1)
    with syncUser_fold_new_byId[OF rest, of "ToString uid"]
    have b: "indexByUserId usr (ToString uid) = Some ?added \<or>
           (\<exists>v \<in> set post. \<exists>vid. ToString vid = ToString uid \<and>
                indexByUserId usr (ToString uid) = Some ((newUser v)\<lparr>u_UserId := vid\<rparr>))"
      by auto
    from rest i b show ?thesis unfolding usr1 Inr by simp
  qed
  show ?thesis
    apply (rule exI[of _ usr], rule exI[of _ h'],
           rule exI[of _ "map (\<lambda>u. CreateUser (newUser u)) creates"])
    apply (intro conjI)
    subgoal by (rule run)
    subgoal by (rule trace)
    subgoal by (rule fields(1))
    subgoal by (rule fields(2))
    subgoal by (rule fields(3))
    subgoal by (rule fields(4))
    subgoal by (rule reply)
    done
qed

theorem new_user_construction_witness:
  "drain (tgt_UsersPages (w_target
      (directoryWorld [] [bobSource False, aliceSource False] [] [bob] [] okStore))) [] =
     ([bob], None) \<and>
   src_Users (w_source (directoryWorld [] [bobSource False, aliceSource False] [] [bob] [] okStore)) [] =
     Inr ([bobSource False] @ aliceSource False # []) \<and>
   \<not> ignoreUser cfg0 (PrimaryEmail (aliceSource False)) \<and>
   \<not> Suspended (aliceSource False) \<and>
   index (indexUser emptyResult bob) (PrimaryEmail (aliceSource False)) = None \<and>
   u_DisplayName (newUser (aliceSource False)) = Some ''Alice Ames'' \<and>
   (\<exists>usr.
      SyncUsers cfg0 (directoryWorld [] [bobSource False, aliceSource False] [] [bob] [] okStore) [] [] =
        ((usr, None),
         [AwsGetUsers, GoogleGetDeletedUsers, GoogleGetUsers [],
          CreateUser (newUser (aliceSource False))]) \<and>
      index usr ''a@x.com'' = Some ((newUser (aliceSource False))\<lparr>u_UserId := Some ''new-user''\<rparr>) \<and>
      indexByUserId usr ''new-user'' =
        Some ((newUser (aliceSource False))\<lparr>u_UserId := Some ''new-user''\<rparr>)) \<and>
   (\<exists>usr.
      SyncUsers cfg0 (directoryWorld [] [aliceSource False, bobSource False] [] [] [] rejectingStore) [] [] =
        ((usr, None),
         [AwsGetUsers, GoogleGetDeletedUsers, GoogleGetUsers [],
          CreateUser (newUser (aliceSource False)), CreateUser (newUser (bobSource False))]) \<and>
      index usr ''a@x.com'' = None)"
proof -
  let ?w = "directoryWorld [] [bobSource False, aliceSource False] [] [bob] [] okStore"
  let ?v = "directoryWorld [] [aliceSource False, bobSource False] [] [] [] rejectingStore"
  let ?L = "[AwsGetUsers, GoogleGetDeletedUsers, GoogleGetUsers []]"
  let ?added = "(newUser (aliceSource False))\<lparr>u_UserId := Some ''new-user''\<rparr>"
  have tgt: "drain (tgt_UsersPages (w_target ?w)) [] = ([bob], None)"
    and tomb: "src_DeletedUsers (w_source ?w) = Inr []"
    and act: "src_Users (w_source ?w) [] = Inr ([bobSource False] @ aliceSource False # [])"
    by (simp_all add: world_defs)
  have reach: "foldl (syncUser cfg0 ?w)
           (foldl markDeleted (foldl indexUser emptyResult [bob]) [], [] @ ?L) [bobSource False] =
           (indexUser emptyResult bob, ?L)"
    by (simp add: sync_defs world_defs)
  have ni: "\<not> ignoreUser cfg0 (PrimaryEmail (aliceSource False))"
    and ns: "\<not> Suspended (aliceSource False)"
    and absent: "index (indexUser emptyResult bob) (PrimaryEmail (aliceSource False)) = None"
    by (simp_all add: sync_defs world_defs)
  have name: "u_DisplayName (newUser (aliceSource False)) = Some ''Alice Ames''"
    by (simp add: newUser_def aliceSource_def)
  have email: "PrimaryEmail (aliceSource False) = ''a@x.com''" by (simp add: aliceSource_def)
  have ok: "api_CreateUser (w_store ?w) h i = Inr (Some ''new-user'')" for h i
    by (simp add: world_defs)
  have no: "api_CreateUser (w_store ?v) h i = Inl ''ValidationException''" for h i
    by (simp add: world_defs)
  from new_user_construction[OF tgt tomb act reach ni ns absent]
  obtain usr h' where run: "SyncUsers cfg0 ?w [] [] = ((usr, None), h')"
    and reply: "case api_CreateUser (w_store ?w) ?L
             \<lparr>cui_IdentityStoreId = identityStoreId ?w,
              cui_DisplayName = Some (GivenName (aliceSource False) @ '' '' @ FamilyName (aliceSource False)),
              cui_UserName = Some (PrimaryEmail (aliceSource False)),
              cui_Name = Some \<lparr>n_FamilyName = Some (FamilyName (aliceSource False)),
                               n_GivenName = Some (GivenName (aliceSource False))\<rparr>,
              cui_Emails = [\<lparr>e_Primary = True, e_Type = Some ''work'',
                              e_Value = Some (PrimaryEmail (aliceSource False))\<rparr>]\<rparr> of
        Inl err \<Rightarrow>
          foldl (syncUser cfg0 ?w)
            (indexUser emptyResult bob, ?L @ [CreateUser (newUser (aliceSource False))]) [] = (usr, h') \<and>
          (index usr (PrimaryEmail (aliceSource False)) = None \<or>
           (\<exists>v \<in> set []. \<exists>vid. PrimaryEmail v = PrimaryEmail (aliceSource False) \<and>
                index usr (PrimaryEmail (aliceSource False)) = Some ((newUser v)\<lparr>u_UserId := vid\<rparr>)))
      | Inr uid \<Rightarrow>
          foldl (syncUser cfg0 ?w)
            ((indexUser emptyResult bob)\<lparr>index := (index (indexUser emptyResult bob))
                     (PrimaryEmail (aliceSource False) \<mapsto> (newUser (aliceSource False))\<lparr>u_UserId := uid\<rparr>),
                  indexByUserId := (indexByUserId (indexUser emptyResult bob))
                     (ToString uid \<mapsto> (newUser (aliceSource False))\<lparr>u_UserId := uid\<rparr>)\<rparr>,
             ?L @ [CreateUser (newUser (aliceSource False))]) [] = (usr, h') \<and>
          index usr (PrimaryEmail (aliceSource False)) = Some ((newUser (aliceSource False))\<lparr>u_UserId := uid\<rparr>) \<and>
          (indexByUserId usr (ToString uid) = Some ((newUser (aliceSource False))\<lparr>u_UserId := uid\<rparr>) \<or>
           (\<exists>v \<in> set []. \<exists>vid. ToString vid = ToString uid \<and>
                indexByUserId usr (ToString uid) = Some ((newUser v)\<lparr>u_UserId := vid\<rparr>)))"
    by (elim exE conjE) (rule that, assumption+)
  from reply have "h' = ?L @ [CreateUser (newUser (aliceSource False))]"
    and "index usr ''a@x.com'' = Some ?added"
    and "indexByUserId usr ''new-user'' = Some ?added"
    unfolding ok by (simp_all add: email ToString_def)
  with run have first: "\<exists>usr.
      SyncUsers cfg0 ?w [] [] =
        ((usr, None), [AwsGetUsers, GoogleGetDeletedUsers, GoogleGetUsers [],
          CreateUser (newUser (aliceSource False))]) \<and>
      index usr ''a@x.com'' = Some ?added \<and>
      indexByUserId usr ''new-user'' = Some ?added" by simp
  have tgt2: "drain (tgt_UsersPages (w_target ?v)) [] = ([], None)"
    and tomb2: "src_DeletedUsers (w_source ?v) = Inr []"
    and act2: "src_Users (w_source ?v) [] = Inr ([] @ aliceSource False # [bobSource False])"
    by (simp_all add: world_defs)
  have reach2: "foldl (syncUser cfg0 ?v)
           (foldl markDeleted (foldl indexUser emptyResult []) [], [] @ ?L) [] = (emptyResult, ?L)"
    by simp
  have absent2: "index emptyResult (PrimaryEmail (aliceSource False)) = None"
    by (simp add: emptyResult_def)
  from new_user_construction[OF tgt2 tomb2 act2 reach2 ni ns absent2]
  obtain usr2 h2 where run2: "SyncUsers cfg0 ?v [] [] = ((usr2, None), h2)"
    and reply2: "case api_CreateUser (w_store ?v) ?L
             \<lparr>cui_IdentityStoreId = identityStoreId ?v,
              cui_DisplayName = Some (GivenName (aliceSource False) @ '' '' @ FamilyName (aliceSource False)),
              cui_UserName = Some (PrimaryEmail (aliceSource False)),
              cui_Name = Some \<lparr>n_FamilyName = Some (FamilyName (aliceSource False)),
                               n_GivenName = Some (GivenName (aliceSource False))\<rparr>,
              cui_Emails = [\<lparr>e_Primary = True, e_Type = Some ''work'',
                              e_Value = Some (PrimaryEmail (aliceSource False))\<rparr>]\<rparr> of
        Inl err \<Rightarrow>
          foldl (syncUser cfg0 ?v)
            (emptyResult, ?L @ [CreateUser (newUser (aliceSource False))]) [bobSource False] = (usr2, h2) \<and>
          (index usr2 (PrimaryEmail (aliceSource False)) = None \<or>
           (\<exists>v \<in> set [bobSource False]. \<exists>vid. PrimaryEmail v = PrimaryEmail (aliceSource False) \<and>
                index usr2 (PrimaryEmail (aliceSource False)) = Some ((newUser v)\<lparr>u_UserId := vid\<rparr>)))
      | Inr uid \<Rightarrow>
          foldl (syncUser cfg0 ?v)
            (emptyResult\<lparr>index := (index emptyResult)
                     (PrimaryEmail (aliceSource False) \<mapsto> (newUser (aliceSource False))\<lparr>u_UserId := uid\<rparr>),
                  indexByUserId := (indexByUserId emptyResult)
                     (ToString uid \<mapsto> (newUser (aliceSource False))\<lparr>u_UserId := uid\<rparr>)\<rparr>,
             ?L @ [CreateUser (newUser (aliceSource False))]) [bobSource False] = (usr2, h2) \<and>
          index usr2 (PrimaryEmail (aliceSource False)) = Some ((newUser (aliceSource False))\<lparr>u_UserId := uid\<rparr>) \<and>
          (indexByUserId usr2 (ToString uid) = Some ((newUser (aliceSource False))\<lparr>u_UserId := uid\<rparr>) \<or>
           (\<exists>v \<in> set [bobSource False]. \<exists>vid. ToString vid = ToString uid \<and>
                indexByUserId usr2 (ToString uid) = Some ((newUser v)\<lparr>u_UserId := vid\<rparr>)))"
    by (elim exE conjE) (rule that, assumption+)
  from reply2 have loop2: "foldl (syncUser cfg0 ?v)
            (emptyResult, ?L @ [CreateUser (newUser (aliceSource False))]) [bobSource False] = (usr2, h2)"
    and "index usr2 ''a@x.com'' = None"
    unfolding no by (simp_all add: email bobSource_def)
  moreover have "snd (foldl (syncUser cfg0 ?v)
            (emptyResult, ?L @ [CreateUser (newUser (aliceSource False))]) [bobSource False]) =
       ?L @ [CreateUser (newUser (aliceSource False)), CreateUser (newUser (bobSource False))]"
    by (simp add: sync_defs adapter_defs world_defs)
  ultimately have second: "\<exists>usr.
      SyncUsers cfg0 ?v [] [] =
        ((usr, None), [AwsGetUsers, GoogleGetDeletedUsers, GoogleGetUsers [],
          CreateUser (newUser (aliceSource False)), CreateUser (newUser (bobSource False))]) \<and>
      index usr ''a@x.com'' = None" using run2 by simp
  show ?thesis
    by (intro conjI tgt act ni ns absent name first second)
qed

section \<open>The whole run\<close>

lemma DoSync_cases:
  assumes "DoSync cfg w h = (r, h')"
  obtains
    (stopped) t where "h' = h @ t" "r \<noteq> Done"
      "\<forall>c \<in> set t. userCall cfg (sourceUsers w (UserMatch cfg)) c \<or>
                    groupCall cfg (sourceGroups w (GroupMatch cfg)) c"
  | (removing) usr h1 h2 t where
      "SyncUsers cfg w (UserMatch cfg) h = ((usr, None), h1)"
      "SyncGroups cfg w (GroupMatch cfg) usr h1 = (Done, h2)"
      "RemoveUsers w (toDelete usr) h2 = (r, h')"
      "h2 = h @ t"
      "\<forall>c \<in> set t. userCall cfg (sourceUsers w (UserMatch cfg)) c \<or>
                    groupCall cfg (sourceGroups w (GroupMatch cfg)) c"
proof -
  let ?ok = "\<lambda>c. userCall cfg (sourceUsers w (UserMatch cfg)) c \<or>
                    groupCall cfg (sourceGroups w (GroupMatch cfg)) c"
  have early: thesis if "h' = h" "r \<noteq> Done"
    using stopped[of "[]"] that by simp
  show thesis
  proof (cases "if \<not> IsLambda cfg then ReadFile w (GoogleCredentials cfg)
                else Inr (GoogleCredentials cfg)")
    case (Inl err)
    with assms have "h' = h" "r \<noteq> Done" by (auto simp: DoSync_def)
    then show ?thesis by (rule early)
  next
    case (Inr creds)
    show ?thesis
    proof (cases "google_NewClient w (GoogleAdmin cfg) creds")
      case (Some err)
      with assms Inr have "h' = h" "r \<noteq> Done" by (auto simp: DoSync_def)
      then show ?thesis by (rule early)
    next
      case None
      obtain usr e h1 where su: "SyncUsers cfg w (UserMatch cfg) h = ((usr, e), h1)"
        by (cases "SyncUsers cfg w (UserMatch cfg) h") auto
      from SyncUsers_calls[OF su] obtain t1 where
        t1: "h1 = h @ t1" "\<forall>c \<in> set t1. userCall cfg (sourceUsers w (UserMatch cfg)) c" by blast
      show ?thesis
      proof (cases e)
        case (Some err)
        with assms Inr None su have "h' = h1" "r \<noteq> Done" by (auto simp: DoSync_def)
        with t1 show ?thesis using stopped[of t1] by auto
      next
        case noerr: None
        obtain r2 h2 where sg: "SyncGroups cfg w (GroupMatch cfg) usr h1 = (r2, h2)"
          by (cases "SyncGroups cfg w (GroupMatch cfg) usr h1")
        from SyncGroups_calls[OF sg] obtain t2 where
          t2: "h2 = h1 @ t2" "\<forall>c \<in> set t2. groupCall cfg (sourceGroups w (GroupMatch cfg)) c"
          by blast
        have h2: "h2 = h @ (t1 @ t2)" and ok: "\<forall>c \<in> set (t1 @ t2). ?ok c"
          using t1 t2 by auto
        show ?thesis
        proof (cases "r2 = Done")
          case True
          with assms Inr None su noerr sg have "RemoveUsers w (toDelete usr) h2 = (r, h')"
            by (simp add: DoSync_def)
          with su noerr sg True h2 ok show ?thesis using removing[of usr h1 h2 "t1 @ t2"] by blast
        next
          case False
          with assms Inr None su noerr sg have "h' = h2" "r \<noteq> Done"
            by (cases r2; simp add: DoSync_def)+
          with h2 ok show ?thesis using stopped[of "t1 @ t2"] by blast
        qed
      qed
    qed
  qed
qed

lemma DoSync_Done:
  assumes "DoSync cfg w h = (Done, h')"
  obtains usr h1 t where "SyncUsers cfg w (UserMatch cfg) h = ((usr, None), h1)"
    "h' = h @ t @ map DeleteUser (toDelete usr)"
  using assms
proof (cases rule: DoSync_cases)
  case (stopped t)
  then show ?thesis by simp
next
  case (removing usr h1 h2 t)
  from RemoveUsers_trace[OF removing(3)] have "h' = h2 @ map DeleteUser (toDelete usr)" by auto
  with removing(1,4) that show ?thesis by simp
qed

text \<open>
  C6. The calls of a run split into a part without \<open>DeleteUser\<close> followed by
  \<open>DeleteUser\<close> calls only. If any \<open>DeleteUser\<close> is issued, user reconciliation had
  succeeded and group reconciliation, with every per-group membership reconciliation in
  it, had completed with exactly the calls before the first deletion; and every user
  deleted is one of the pending deletions and is still in the username index that group
  reconciliation worked with.
\<close>

theorem user_deletion_after_group_reconciliation:
  assumes "DoSync cfg w h = (r, h')"
  shows "\<exists>before deletions.
      h' = h @ before @ deletions \<and>
      (\<forall>c \<in> set before. \<not> isDeleteUser c) \<and>
      (\<forall>c \<in> set deletions. isDeleteUser c) \<and>
      (deletions \<noteq> [] \<longrightarrow>
         (\<exists>usr h1. SyncUsers cfg w (UserMatch cfg) h = ((usr, None), h1) \<and>
                   SyncGroups cfg w (GroupMatch cfg) usr h1 = (Done, h @ before) \<and>
                   (\<forall>c \<in> set deletions. \<exists>u \<in> set (toDelete usr).
                        c = DeleteUser u \<and> (\<exists>k. index usr k = Some u))))"
  using assms
proof (cases rule: DoSync_cases)
  case (stopped t)
  have "\<not> isDeleteUser c" if "c \<in> set t" for c
    using stopped(3) that by (cases c) auto
  then show ?thesis
    by - (rule exI[of _ t], rule exI[of _ "[]"], use stopped(1) in simp)
next
  case (removing usr h1 h2 t)
  have quiet: "\<not> isDeleteUser c" if "c \<in> set t" for c
    using removing(5) that by (cases c) auto
  from RemoveUsers_trace[OF removing(3)] obtain n where
    h': "h' = h2 @ map DeleteUser (take n (toDelete usr))" by blast
  have "\<exists>u \<in> set (toDelete usr). c = DeleteUser u \<and> (\<exists>k. index usr k = Some u)"
    if "c \<in> set (map DeleteUser (take n (toDelete usr)))" for c
  proof -
    from that obtain u where "u \<in> set (take n (toDelete usr))" "c = DeleteUser u" by auto
    moreover then have "u \<in> set (toDelete usr)" by (meson in_set_takeD)
    moreover from this SyncUsers_pending(2)[OF removing(1)] have "\<exists>k. index usr k = Some u"
      by blast
    ultimately show ?thesis by blast
  qed
  then show ?thesis
    apply -
    apply (rule exI[of _ t], rule exI[of _ "map DeleteUser (take n (toDelete usr))"])
    using h' removing(1,2,4) quiet by auto
qed

theorem user_deletion_after_group_reconciliation_witness:
  "DoSync cfg0 (directoryWorld [] [bobSource True] [engSource] [bob] [engTarget] okStore) [] =
     (Done, [AwsGetUsers, GoogleGetDeletedUsers, GoogleGetUsers [], AwsGetGroups,
             GoogleGetGroups [], GoogleGetGroupMembers engSource, AwsGetGroupMembers engTarget,
             AddUserToGroup bob engTarget, DeleteUser bob]) \<and>
   (\<exists>before deletions.
      [AwsGetUsers, GoogleGetDeletedUsers, GoogleGetUsers [], AwsGetGroups,
       GoogleGetGroups [], GoogleGetGroupMembers engSource, AwsGetGroupMembers engTarget,
       AddUserToGroup bob engTarget, DeleteUser bob] = [] @ before @ deletions \<and>
      (\<forall>c \<in> set before. \<not> isDeleteUser c) \<and>
      (\<forall>c \<in> set deletions. isDeleteUser c) \<and>
      (deletions \<noteq> [] \<longrightarrow>
         (\<exists>usr h1. SyncUsers cfg0 (directoryWorld [] [bobSource True] [engSource] [bob] [engTarget] okStore)
                      (UserMatch cfg0) [] = ((usr, None), h1) \<and>
                   SyncGroups cfg0 (directoryWorld [] [bobSource True] [engSource] [bob] [engTarget] okStore)
                      (GroupMatch cfg0) usr h1 = (Done, [] @ before) \<and>
                   (\<forall>c \<in> set deletions. \<exists>u \<in> set (toDelete usr).
                        c = DeleteUser u \<and> (\<exists>k. index usr k = Some u)))))"
proof -
  have run: "DoSync cfg0 (directoryWorld [] [bobSource True] [engSource] [bob] [engTarget] okStore) [] =
     (Done, [AwsGetUsers, GoogleGetDeletedUsers, GoogleGetUsers [], AwsGetGroups,
             GoogleGetGroups [], GoogleGetGroupMembers engSource, AwsGetGroupMembers engTarget,
             AddUserToGroup bob engTarget, DeleteUser bob])"
    by (simp add: sync_defs adapter_defs world_defs)
  show ?thesis
    by (rule conjI[OF run user_deletion_after_group_reconciliation[OF run]])
qed

text \<open>
  C2, as amended. In every run: no \<open>CreateUser\<close> is issued for a username on the ignore
  list; every \<open>CreateGroup\<close> carries the display name of a source group whose email is not
  on the ignore list; and a \<open>DeleteUser\<close> for a username on the ignore list is issued only
  if a tombstone names that username (the pass over the active users never schedules an
  ignored username).
\<close>

theorem ignored_names_not_created:
  assumes "DoSync cfg w h = (r, h')"
  shows "\<forall>c \<in> set (drop (length h) h').
      (\<forall>u. c = CreateUser u \<longrightarrow> ToString (u_UserName u) \<notin> set (IgnoreUsers cfg)) \<and>
      (\<forall>n d. c = CreateGroup n d \<longrightarrow>
         (\<exists>g \<in> set (sourceGroups w (GroupMatch cfg)).
            ag_Email g \<notin> set (IgnoreGroups cfg) \<and> n = Some (ag_Name g))) \<and>
      (\<forall>u. c = DeleteUser u \<longrightarrow> ToString (u_UserName u) \<in> set (IgnoreUsers cfg) \<longrightarrow>
         ToString (u_UserName u) \<in> PrimaryEmail ` set (sourceDeletedUsers w))"
proof -
  let ?P = "\<lambda>c. (\<forall>u. c = CreateUser u \<longrightarrow> ToString (u_UserName u) \<notin> set (IgnoreUsers cfg)) \<and>
      (\<forall>n d. c = CreateGroup n d \<longrightarrow>
         (\<exists>g \<in> set (sourceGroups w (GroupMatch cfg)).
            ag_Email g \<notin> set (IgnoreGroups cfg) \<and> n = Some (ag_Name g))) \<and>
      (\<forall>u. c = DeleteUser u \<longrightarrow> ToString (u_UserName u) \<in> set (IgnoreUsers cfg) \<longrightarrow>
         ToString (u_UserName u) \<in> PrimaryEmail ` set (sourceDeletedUsers w))"
  have phase: "?P c"
    if "userCall cfg (sourceUsers w (UserMatch cfg)) c \<or>
        groupCall cfg (sourceGroups w (GroupMatch cfg)) c" for c
    using that by (cases c) (auto simp: ignoreUser_iff ignoreGroup_iff)
  from assms show ?thesis
  proof (cases rule: DoSync_cases)
    case (stopped t)
    have "?P c" if "c \<in> set t" for c
      using stopped(3) that phase by blast
    moreover have "drop (length h) h' = t" by (simp add: stopped(1))
    ultimately show ?thesis by (simp only:) blast
  next
    case (removing usr h1 h2 t)
    from RemoveUsers_trace[OF removing(3)] obtain n where
      h': "h' = h2 @ map DeleteUser (take n (toDelete usr))" by blast
    have dels: "?P c" if "c \<in> set (map DeleteUser (take n (toDelete usr)))" for c
    proof -
      from that obtain u where "u \<in> set (take n (toDelete usr))" and c: "c = DeleteUser u" by auto
      then have "u \<in> set (toDelete usr)" by (meson in_set_takeD)
      with SyncUsers_pending(3)[OF removing(1)]
      have "ToString (u_UserName u) \<in> PrimaryEmail ` set (sourceDeletedUsers w) \<or>
           \<not> ignoreUser cfg (ToString (u_UserName u))" by blast
      then show ?thesis unfolding c by (auto simp: ignoreUser_iff)
    qed
    have before: "?P c" if "c \<in> set t" for c
      using removing(5) that phase by blast
    have suffix: "drop (length h) h' = t @ map DeleteUser (take n (toDelete usr))"
      by (simp add: h' removing(4))
    show ?thesis
      unfolding suffix
    proof (rule ballI)
      fix c
      assume "c \<in> set (t @ map DeleteUser (take n (toDelete usr)))"
      then consider "c \<in> set t" | "c \<in> set (map DeleteUser (take n (toDelete usr)))"
        by auto
      then show "?P c"
        by cases (rule before, assumption, rule dels, assumption)
    qed
  qed
qed

theorem ignored_names_not_created_witness:
  "DoSync cfgIgnoreName (directoryWorld [] [aliceSource False] [engSource] [] [] okStore) [] =
     (Done, [AwsGetUsers, GoogleGetDeletedUsers, GoogleGetUsers [],
             CreateUser (newUser (aliceSource False)), AwsGetGroups, GoogleGetGroups [],
             CreateGroup (Some ''Eng'') (Some ''Engineering''),
             GoogleGetGroupMembers engSource,
             AwsGetGroupMembers \<lparr>g_GroupId = Some ''new-group'', g_DisplayName = Some ''Eng'',
                                   g_Description = Some ''Engineering''\<rparr>]) \<and>
   ToString (u_UserName (newUser (aliceSource False))) \<notin> set (IgnoreUsers cfgIgnoreName) \<and>
   (\<exists>g \<in> set (sourceGroups (directoryWorld [] [aliceSource False] [engSource] [] [] okStore)
                   (GroupMatch cfgIgnoreName)).
       ag_Email g \<notin> set (IgnoreGroups cfgIgnoreName) \<and> Some ''Eng'' = Some (ag_Name g))"
proof -
  let ?w = "directoryWorld [] [aliceSource False] [engSource] [] [] okStore"
  let ?t = "[AwsGetUsers, GoogleGetDeletedUsers, GoogleGetUsers [],
             CreateUser (newUser (aliceSource False)), AwsGetGroups, GoogleGetGroups [],
             CreateGroup (Some ''Eng'') (Some ''Engineering''),
             GoogleGetGroupMembers engSource,
             AwsGetGroupMembers \<lparr>g_GroupId = Some ''new-group'', g_DisplayName = Some ''Eng'',
                                   g_Description = Some ''Engineering''\<rparr>]"
  have run: "DoSync cfgIgnoreName ?w [] = (Done, ?t)"
    by (simp add: sync_defs adapter_defs world_defs)
  note all = ignored_names_not_created[OF run]
  have 1: "CreateUser (newUser (aliceSource False)) \<in> set (drop (length ([] :: call list)) ?t)"
    by simp
  have 2: "CreateGroup (Some ''Eng'') (Some ''Engineering'') \<in> set (drop (length ([] :: call list)) ?t)"
    by simp
  from bspec[OF all 1] bspec[OF all 2] run show ?thesis by blast
qed

text \<open>
  C2 as stated fails. First: \<open>a@x.com\<close> and \<open>eng@x.com\<close> are on the ignore lists, the
  source has a tombstone for \<open>a@x.com\<close> and the group \<open>Eng\<close> with email \<open>eng@x.com\<close>,
  the target has both; the run deletes the group and the user. Second: the display name
  \<open>Eng\<close> is on the ignore list, the source group \<open>Eng\<close> is not in the target; the run
  creates it.
\<close>

theorem ignored_names_deleted_counterexample:
  "''a@x.com'' \<in> set (IgnoreUsers cfgIgnoreAlice) \<and>
   ''eng@x.com'' \<in> set (IgnoreGroups cfgIgnoreAlice) \<and>
   ToString (u_UserName alice) = ''a@x.com'' \<and>
   ag_Email engSource = ''eng@x.com'' \<and>
   DoSync cfgIgnoreAlice
      (directoryWorld [aliceSource False] [] [engSource] [alice] [engTarget] okStore) [] =
     (Done, [AwsGetUsers, GoogleGetDeletedUsers, GoogleGetUsers [], AwsGetGroups,
             GoogleGetGroups [], DeleteGroup engTarget, DeleteUser alice]) \<and>
   ''Eng'' \<in> set (IgnoreGroups cfgIgnoreName) \<and>
   ag_Name engSource = ''Eng'' \<and>
   DoSync cfgIgnoreName (directoryWorld [] [] [engSource] [] [] okStore) [] =
     (Done, [AwsGetUsers, GoogleGetDeletedUsers, GoogleGetUsers [], AwsGetGroups,
             GoogleGetGroups [], CreateGroup (Some ''Eng'') (Some ''Engineering''),
             GoogleGetGroupMembers engSource,
             AwsGetGroupMembers \<lparr>g_GroupId = Some ''new-group'', g_DisplayName = Some ''Eng'',
                                   g_Description = Some ''Engineering''\<rparr>])"
  by (simp add: sync_defs adapter_defs world_defs)

lemma failed_deletion_stops_pass:
  "DoSync cfg0
      (directoryWorld [aliceSource True, bobSource False] [aliceSource True] [] [alice, bob] []
         (okStore\<lparr>api_DeleteUser := (\<lambda>h s u. if u = Some ''u-2'' then Some ''gone'' else None)\<rparr>)) [] =
     (Failed ''gone'', [AwsGetUsers, GoogleGetDeletedUsers, GoogleGetUsers [], AwsGetGroups,
             GoogleGetGroups [], DeleteUser alice, DeleteUser bob])"
  by (simp add: sync_defs adapter_defs world_defs)

text \<open>
  C9, as amended. Let a username that is not on the ignore list belong to a target user,
  match a tombstone, and appear in the active listing marked suspended, and let the three
  user listings succeed. Then the target user filed under that username is in the pending
  deletions once per matching tombstone plus once per matching suspended entry, hence at
  least twice. The final pass requests the pending deletions in order until one fails: if
  every deletion requested before the second entry of that user succeeds (the deletions
  scheduled before the first entry, the first deletion of that user, and the deletions
  scheduled between the two entries), \<open>DeleteUser\<close> is issued for the user a second time;
  and a run that completes has issued it at least twice. A deletion that fails between
  the two entries ends the pass before the second request, as in
  \<open>failed_deletion_stops_pass\<close>.
\<close>

theorem duplicate_pending_deletion:
  assumes tgt: "drain (tgt_UsersPages (w_target w)) [] = (awsUsers, None)"
    and tomb: "src_DeletedUsers (w_source w) = Inr deleted"
    and act: "src_Users (w_source w) (UserMatch cfg) = Inr googleUsers"
    and t0: "t0 \<in> set awsUsers" "ToString (u_UserName t0) = e"
    and d: "d \<in> set deleted" "PrimaryEmail d = e"
    and a: "a \<in> set googleUsers" "PrimaryEmail a = e" "Suspended a"
    and ni: "e \<notin> set (IgnoreUsers cfg)"
  shows "\<exists>usr h1 t.
      SyncUsers cfg w (UserMatch cfg) h = ((usr, None), h1) \<and>
      t \<in> set awsUsers \<and> ToString (u_UserName t) = e \<and> index usr e = Some t \<and>
      count_list (toDelete usr) t =
        length (filter (\<lambda>d. PrimaryEmail d = e) deleted) +
        length (filter (\<lambda>a. PrimaryEmail a = e \<and> Suspended a) googleUsers) \<and>
      2 \<le> count_list (toDelete usr) t \<and>
      (\<forall>xs ys zs h2. toDelete usr = xs @ t # ys @ t # zs \<longrightarrow>
          fst (RemoveUsers w (xs @ t # ys) h2) = Done \<longrightarrow>
          2 \<le> count_list (drop (length h2) (snd (RemoveUsers w (toDelete usr) h2))) (DeleteUser t)) \<and>
      (\<forall>h'. DoSync cfg w h = (Done, h') \<longrightarrow>
          2 \<le> count_list (drop (length h) h') (DeleteUser t))"
proof -
  let ?usr1 = "foldl indexUser emptyResult awsUsers"
  let ?usr2 = "foldl markDeleted ?usr1 deleted"
  let ?h3 = "h @ [AwsGetUsers, GoogleGetDeletedUsers, GoogleGetUsers (UserMatch cfg)]"
  obtain usr h1 where loop: "foldl (syncUser cfg w) (?usr2, ?h3) googleUsers = (usr, h1)"
    by (cases "foldl (syncUser cfg w) (?usr2, ?h3) googleUsers")
  have run: "SyncUsers cfg w (UserMatch cfg) h = ((usr, None), h1)"
    by (rule SyncUsers_ok[OF tgt tomb act loop])
  have "e \<in> dom (index ?usr1)"
    using t0 by (auto simp: indexUser_fold_dom)
  then obtain t where t: "index ?usr1 e = Some t" by blast
  from indexUser_fold_index[OF t] have t_in: "t \<in> set awsUsers" "ToString (u_UserName t) = e"
    by (auto simp: emptyResult_def)
  have usr2: "?usr2 = ?usr1\<lparr>toDelete := List.map_filter (\<lambda>d. index ?usr1 (PrimaryEmail d)) deleted\<rparr>"
    by (simp add: markDeleted_fold emptyResult_def)
  have k1: "keyed ?usr1" by (rule keyed_indexed)
  have k2: "keyed ?usr2" unfolding usr2 using k1 by simp
  have t2: "index ?usr2 e = Some t" unfolding usr2 using t by simp
  have nie: "\<not> ignoreUser cfg e" using ni by (simp add: ignoreUser_iff)
  have c2: "count_list (toDelete ?usr2) t = length (filter (\<lambda>d. PrimaryEmail d = e) deleted)"
    unfolding usr2 by (simp add: count_tombstones[OF k1 t])
  from syncUser_fold_count[OF loop t2 k2 nie] c2
  have count: "count_list (toDelete usr) t =
        length (filter (\<lambda>d. PrimaryEmail d = e) deleted) +
        length (filter (\<lambda>a. PrimaryEmail a = e \<and> Suspended a) googleUsers)" by simp
  have "0 < length (filter (\<lambda>d. PrimaryEmail d = e) deleted)"
    using d by (auto simp: filter_empty_conv)
  moreover have "0 < length (filter (\<lambda>a. PrimaryEmail a = e \<and> Suspended a) googleUsers)"
    using a by (auto simp: filter_empty_conv)
  ultimately have two: "2 \<le> count_list (toDelete usr) t" using count by linarith
  from syncUser_fold[OF loop] t2 have idx: "index usr e = Some t" by blast
  have removal: "2 \<le> count_list (drop (length h2) (snd (RemoveUsers w (toDelete usr) h2))) (DeleteUser t)"
    if "toDelete usr = xs @ t # ys @ t # zs" "fst (RemoveUsers w (xs @ t # ys) h2) = Done"
    for xs ys zs h2
    using RemoveUsers_second_request[OF that(2), of zs] that(1) by simp
  have whole: "2 \<le> count_list (drop (length h) h') (DeleteUser t)"
    if "DoSync cfg w h = (Done, h')" for h'
  proof -
    from that obtain usr' h1' tr where "SyncUsers cfg w (UserMatch cfg) h = ((usr', None), h1')"
      and h': "h' = h @ tr @ map DeleteUser (toDelete usr')" by (rule DoSync_Done)
    with run have "usr' = usr" by simp
    with h' have "drop (length h) h' = tr @ map DeleteUser (toDelete usr)" by simp
    with two show ?thesis by simp
  qed
  show ?thesis
    apply (rule exI[of _ usr], rule exI[of _ h1], rule exI[of _ t])
    using run t_in idx count two removal whole by blast
qed

theorem duplicate_pending_deletion_witness:
  "DoSync cfg0
      (directoryWorld [aliceSource True, bobSource False] [aliceSource True] [] [alice, bob] []
         okStore) [] =
     (Done, [AwsGetUsers, GoogleGetDeletedUsers, GoogleGetUsers [], AwsGetGroups,
             GoogleGetGroups [], DeleteUser alice, DeleteUser bob, DeleteUser alice]) \<and>
   toDelete (fst (fst (SyncUsers cfg0
      (directoryWorld [aliceSource True, bobSource False] [aliceSource True] [] [alice, bob] []
         okStore) [] []))) = [] @ alice # [bob] @ alice # [] \<and>
   fst (RemoveUsers
      (directoryWorld [aliceSource True, bobSource False] [aliceSource True] [] [alice, bob] []
         okStore) ([] @ alice # [bob]) []) = Done \<and>
   (\<exists>usr h1 t.
      SyncUsers cfg0
        (directoryWorld [aliceSource True, bobSource False] [aliceSource True] [] [alice, bob] []
           okStore) (UserMatch cfg0) [] = ((usr, None), h1) \<and>
      t \<in> set [alice, bob] \<and> ToString (u_UserName t) = ''a@x.com'' \<and> index usr ''a@x.com'' = Some t \<and>
      count_list (toDelete usr) t =
        length (filter (\<lambda>d. PrimaryEmail d = ''a@x.com'') [aliceSource True, bobSource False]) +
        length (filter (\<lambda>a. PrimaryEmail a = ''a@x.com'' \<and> Suspended a) [aliceSource True]) \<and>
      2 \<le> count_list (toDelete usr) t \<and>
      (\<forall>xs ys zs h2. toDelete usr = xs @ t # ys @ t # zs \<longrightarrow>
          fst (RemoveUsers
                 (directoryWorld [aliceSource True, bobSource False] [aliceSource True] []
                    [alice, bob] [] okStore)
                 (xs @ t # ys) h2) = Done \<longrightarrow>
          2 \<le> count_list (drop (length h2) (snd (RemoveUsers
                 (directoryWorld [aliceSource True, bobSource False] [aliceSource True] []
                    [alice, bob] [] okStore)
                 (toDelete usr) h2))) (DeleteUser t)) \<and>
      (\<forall>h'. DoSync cfg0
               (directoryWorld [aliceSource True, bobSource False] [aliceSource True] []
                  [alice, bob] [] okStore) []
               = (Done, h') \<longrightarrow>
          2 \<le> count_list (drop (length ([] :: call list)) h') (DeleteUser t)))"
proof -
  let ?w = "directoryWorld [aliceSource True, bobSource False] [aliceSource True] [] [alice, bob] []
              okStore"
  have run: "DoSync cfg0 ?w [] =
     (Done, [AwsGetUsers, GoogleGetDeletedUsers, GoogleGetUsers [], AwsGetGroups,
             GoogleGetGroups [], DeleteUser alice, DeleteUser bob, DeleteUser alice])"
    by (simp add: sync_defs adapter_defs world_defs)
  have pending: "toDelete (fst (fst (SyncUsers cfg0 ?w [] []))) = [] @ alice # [bob] @ alice # []"
    by (simp add: sync_defs adapter_defs world_defs)
  have between: "fst (RemoveUsers ?w ([] @ alice # [bob]) []) = Done"
    by (simp add: adapter_defs world_defs)
  have tgt: "drain (tgt_UsersPages (w_target ?w)) [] = ([alice, bob], None)"
    and tomb: "src_DeletedUsers (w_source ?w) = Inr [aliceSource True, bobSource False]"
    and act: "src_Users (w_source ?w) (UserMatch cfg0) = Inr [aliceSource True]"
    and t0: "alice \<in> set [alice, bob]" "ToString (u_UserName alice) = ''a@x.com''"
    and d: "aliceSource True \<in> set [aliceSource True, bobSource False]"
      "PrimaryEmail (aliceSource True) = ''a@x.com''"
    and a: "aliceSource True \<in> set [aliceSource True]" "PrimaryEmail (aliceSource True) = ''a@x.com''"
      "Suspended (aliceSource True)"
    and ni: "''a@x.com'' \<notin> set (IgnoreUsers cfg0)"
    by (simp_all add: world_defs ToString_def)
  show ?thesis
    by (intro conjI run pending between
          duplicate_pending_deletion[OF tgt tomb act t0 d a ni, of "[]"])
qed

text \<open>
  C9 as stated fails for a username on the ignore list: the tombstone schedules the user,
  the pass over the active users skips the suspended entry, and the user is pending and
  deleted once.
\<close>

theorem duplicate_pending_deletion_counterexample:
  "DoSync cfgIgnoreAlice
      (directoryWorld [aliceSource True] [aliceSource True] [] [alice] [] okStore) [] =
     (Done, [AwsGetUsers, GoogleGetDeletedUsers, GoogleGetUsers [], AwsGetGroups,
             GoogleGetGroups [], DeleteUser alice]) \<and>
   toDelete (fst (fst (SyncUsers cfgIgnoreAlice
      (directoryWorld [aliceSource True] [aliceSource True] [] [alice] [] okStore) [] []))) = [alice]"
  by (simp add: sync_defs adapter_defs world_defs)

text \<open>
  C1, as amended. Let a run complete without error and without a mutating call, the
  runtime visiting every key of the maps it walks. Then every run presented with the same
  source and target snapshots issues no mutating call, whatever the store would answer,
  whatever the order in which maps are walked, and whatever was requested before.
\<close>

theorem quiescent_run_stays_quiescent:
  assumes run: "DoSync cfg w1 h1 = (Done, h1')"
    and quiet: "\<forall>c \<in> set (drop (length h1) h1'). \<not> isMutation c"
    and order: "\<forall>h ks. set ks \<subseteq> set (mapOrder w1 h ks)"
    and same: "w_source w2 = w_source w1" "w_target w2 = w_target w1"
  shows "\<forall>c \<in> set (drop (length h2) (snd (DoSync cfg w2 h2))). \<not> isMutation c"
  using run
proof (cases rule: DoSync_cases)
  case (stopped t)
  then show ?thesis by simp
next
  case (removing usr g1 g2 t)
  from SyncUsers_calls[OF removing(1)] obtain tu where tu: "g1 = h1 @ tu" by blast
  from SyncGroups_calls[OF removing(2)] obtain tg where tg: "g2 = g1 @ tg" by blast
  from RemoveUsers_trace[OF removing(3)] have h1': "h1' = g2 @ map DeleteUser (toDelete usr)"
    by auto
  with tu tg have "drop (length h1) h1' = tu @ tg @ map DeleteUser (toDelete usr)" by simp
  with quiet have qu: "\<forall>c \<in> set tu. \<not> isMutation c" and qg: "\<forall>c \<in> set tg. \<not> isMutation c"
    and qd: "\<forall>c \<in> set (map DeleteUser (toDelete usr)). \<not> isMutation c"
    by (simp_all add: quiet_append)
  from qd have none: "toDelete usr = []" by (rule quiet_map_DeleteUser)
  let ?L = "[AwsGetUsers, GoogleGetDeletedUsers, GoogleGetUsers (UserMatch cfg)]"
  from removing(1) tu have "SyncUsers cfg w1 (UserMatch cfg) h1 = ((usr, None), h1 @ tu)" by simp
  from SyncUsers_quiet[OF this qu same, of h2]
  have users2: "SyncUsers cfg w2 (UserMatch cfg) h2 = ((usr, None), h2 @ ?L)" .
  from removing(2) tg have "SyncGroups cfg w1 (GroupMatch cfg) usr g1 = (Done, g1 @ tg)" by simp
  from SyncGroups_quiet[OF this qg order same, of "h2 @ ?L"] obtain t' where
    groups2: "SyncGroups cfg w2 (GroupMatch cfg) usr (h2 @ ?L) = (Done, (h2 @ ?L) @ t')"
    and q': "\<forall>c \<in> set t'. \<not> isMutation c" by blast
  have "snd (DoSync cfg w2 h2) = h2 \<or> snd (DoSync cfg w2 h2) = h2 @ ?L @ t'"
    using users2 groups2 none
    by (auto simp: DoSync_def split: sum.splits option.splits)
  then show ?thesis
  proof
    assume "snd (DoSync cfg w2 h2) = h2"
    then show ?thesis by simp
  next
    assume "snd (DoSync cfg w2 h2) = h2 @ ?L @ t'"
    then have "drop (length h2) (snd (DoSync cfg w2 h2)) = ?L @ t'" by simp
    then show ?thesis using q' by simp
  qed
qed

theorem quiescent_run_stays_quiescent_witness:
  "DoSync cfg0 (membersWorld [bobMembership]) [] =
     (Done, [AwsGetUsers, GoogleGetDeletedUsers, GoogleGetUsers [], AwsGetGroups,
             GoogleGetGroups [], GoogleGetGroupMembers engSource, AwsGetGroupMembers engTarget]) \<and>
   w_source (otherRuntime (membersWorld [bobMembership])) = w_source (membersWorld [bobMembership]) \<and>
   w_target (otherRuntime (membersWorld [bobMembership])) = w_target (membersWorld [bobMembership]) \<and>
   filter isMutation
     (drop (length [AwsGetUsers, GoogleGetDeletedUsers])
        (snd (DoSync cfg0 (otherRuntime (membersWorld [bobMembership]))
                [AwsGetUsers, GoogleGetDeletedUsers]))) = []"
proof -
  have run: "DoSync cfg0 (membersWorld [bobMembership]) [] =
     (Done, [AwsGetUsers, GoogleGetDeletedUsers, GoogleGetUsers [], AwsGetGroups,
             GoogleGetGroups [], GoogleGetGroupMembers engSource, AwsGetGroupMembers engTarget])"
    by (simp add: sync_defs adapter_defs world_defs)
  have quiet: "\<forall>c \<in> set (drop (length ([] :: call list))
        [AwsGetUsers, GoogleGetDeletedUsers, GoogleGetUsers [], AwsGetGroups,
         GoogleGetGroups [], GoogleGetGroupMembers engSource, AwsGetGroupMembers engTarget]).
      \<not> isMutation c" by simp
  have order: "\<forall>h ks. set ks \<subseteq> set (mapOrder (membersWorld [bobMembership]) h ks)"
    by (simp add: world_defs)
  have same: "w_source (otherRuntime (membersWorld [bobMembership])) = w_source (membersWorld [bobMembership])"
    "w_target (otherRuntime (membersWorld [bobMembership])) = w_target (membersWorld [bobMembership])"
    by (simp_all add: otherRuntime_def)
  from quiescent_run_stays_quiescent[OF run quiet order same,
      of "[AwsGetUsers, GoogleGetDeletedUsers]"]
  have "filter isMutation
     (drop (length [AwsGetUsers, GoogleGetDeletedUsers])
        (snd (DoSync cfg0 (otherRuntime (membersWorld [bobMembership]))
                [AwsGetUsers, GoogleGetDeletedUsers]))) = []"
    by (simp only: filter_empty_conv)
  with run same show ?thesis by blast
qed

text \<open>
  C1 as stated fails: the source has the active user \<open>a@x.com\<close>, the target has no
  user, and the store rejects the creation. The first run requests the creation and goes
  on; the target is unchanged, so the second run is presented with the same snapshots and
  requests the creation again.
\<close>

theorem idempotence_counterexample:
  "DoSync cfg0 (directoryWorld [] [aliceSource False] [] [] [] rejectingStore) [] =
     (Done, [AwsGetUsers, GoogleGetDeletedUsers, GoogleGetUsers [],
             CreateUser (newUser (aliceSource False)), AwsGetGroups, GoogleGetGroups []]) \<and>
   DoSync cfg0 (directoryWorld [] [aliceSource False] [] [] [] rejectingStore)
        [AwsGetUsers, GoogleGetDeletedUsers, GoogleGetUsers [],
         CreateUser (newUser (aliceSource False)), AwsGetGroups, GoogleGetGroups []] =
     (Done, [AwsGetUsers, GoogleGetDeletedUsers, GoogleGetUsers [],
             CreateUser (newUser (aliceSource False)), AwsGetGroups, GoogleGetGroups [],
             AwsGetUsers, GoogleGetDeletedUsers, GoogleGetUsers [],
             CreateUser (newUser (aliceSource False)), AwsGetGroups, GoogleGetGroups []]) \<and>
   isMutation (CreateUser (newUser (aliceSource False)))"
  by (simp add: sync_defs adapter_defs world_defs)

end
